theory Spec2Isabelle
  imports Complex_Main "HOL-Library.Word" "HOL-Library.Char_ord" "HOL-Library.List_Lexorder"
    "HOL-Library.Product_Lexorder" "HOL-Library.Option_ord" "HOL-Library.Multiset"
begin

section \<open>Exceptions as values\<close>

text \<open>
  Every Python exception that the modelled code can raise is a value of \<open>py_error\<close>;
  a call that can raise returns \<open>py_error + 'a\<close> with \<open>Inl\<close> for the exception.
  \<open>EmptyMask\<close> marks the one result the specification leaves undefined: the bounding
  rectangle of a mask without foreground pixels.
\<close>

datatype py_error =
  AttributeError | KeyError | TypeError | ValueError | ArrowInvalid | FileNotFoundError
  | DecodeError | EmptyMask

definition then_do :: "py_error + 'a \<Rightarrow> ('a \<Rightarrow> py_error + 'b) \<Rightarrow> py_error + 'b" where
  "then_do r f = (case r of Inl e \<Rightarrow> Inl e | Inr v \<Rightarrow> f v)"

section \<open>Bounding boxes (pixano/core/bbox.py)\<close>

text \<open>
  The class \<open>BBox\<close>: a list of coordinates, a format string, the optional
  normalisation flag and the optional confidence. The coordinate type is a parameter:
  the conversions only add and subtract coordinates.
\<close>

record 'a BBox =
  coords :: "'a list"
  format :: string
  is_normalized :: "bool option"
  confidence :: "'a option"

text \<open>\<open>BBox.__init__(coords, format, is_normalized=True, confidence=None)\<close>; a caller
  that omits an argument passes the default, \<open>Some True\<close> or \<open>None\<close>.\<close>

definition BBox_init :: "'a list \<Rightarrow> string \<Rightarrow> bool option \<Rightarrow> 'a option \<Rightarrow> 'a BBox" where
  "BBox_init c f n k = \<lparr>coords = c, format = f, is_normalized = n, confidence = k\<rparr>"

text \<open>Modelled from the spec: \<open>xywh_to_xyxy\<close> and \<open>xyxy_to_xywh\<close> of pixano/utils, which
  is not under src/. Section 4.1: \<open>xyxy=[x1,y1,x2,y2]\<close>, \<open>xywh=[x,y,w,h]\<close> with
  \<open>x2=x+w, y2=y+h\<close>. A list that does not have four entries cannot be unpacked.\<close>

fun xywh_to_xyxy :: "'a::plus list \<Rightarrow> py_error + 'a list" where
  "xywh_to_xyxy [x, y, w, h] = Inr [x, y, x + w, y + h]"
| "xywh_to_xyxy _ = Inl ValueError"

fun xyxy_to_xywh :: "'a::minus list \<Rightarrow> py_error + 'a list" where
  "xyxy_to_xywh [x1, y1, x2, y2] = Inr [x1, y1, x2 - x1, y2 - y1]"
| "xyxy_to_xywh _ = Inl ValueError"

definition xyxy_coords :: "'a::plus BBox \<Rightarrow> py_error + 'a list" where
  "xyxy_coords b = (if format b = ''xyxy'' then Inr (coords b) else xywh_to_xyxy (coords b))"

definition xywh_coords :: "'a::minus BBox \<Rightarrow> py_error + 'a list" where
  "xywh_coords b = (if format b = ''xywh'' then Inr (coords b) else xyxy_to_xywh (coords b))"

definition is_predicted :: "'a BBox \<Rightarrow> bool" where
  "is_predicted b = (confidence b \<noteq> None)"

definition to_xyxy :: "'a::plus BBox \<Rightarrow> py_error + 'a BBox" where
  "to_xyxy b = then_do (xyxy_coords b) (\<lambda>c. Inr (BBox_init c ''xyxy'' (is_normalized b) None))"

definition to_xywh :: "'a::minus BBox \<Rightarrow> py_error + 'a BBox" where
  "to_xywh b = then_do (xywh_coords b) (\<lambda>c. Inr (BBox_init c ''xywh'' (is_normalized b) None))"

definition from_xyxy :: "'a list \<Rightarrow> 'a BBox" where
  "from_xyxy xyxy = BBox_init xyxy ''xyxy'' (Some True) None"

definition from_xywh :: "'a list \<Rightarrow> 'a BBox" where
  "from_xywh xywh = BBox_init xywh ''xywh'' (Some True) None"

subsection \<open>Masks as arrays\<close>

text \<open>A dense mask is the list of its rows, which have one length; \<open>foreground\<close> lists the
  (row, column) positions of its foreground pixels in row-major order, and \<open>mask_shape\<close>
  is \<open>mask.shape\<close>, the height and the width.\<close>

type_synonym dense_mask = "bool list list"

definition foreground :: "dense_mask \<Rightarrow> (nat \<times> nat) list" where
  "foreground m = [(i, j). i \<leftarrow> [0..<length m], j \<leftarrow> [0..<length (m ! i)], m ! i ! j]"

definition mask_shape :: "dense_mask \<Rightarrow> nat \<times> nat" where
  "mask_shape m = (length m, case m of [] \<Rightarrow> 0 | row # _ \<Rightarrow> length row)"

text \<open>Modelled from the spec: \<open>mask_to_bbox\<close> of pixano/utils, which is not under src/.
  Section 4.1 makes it the tight axis-aligned bounding rectangle of the foreground
  pixels, in \<open>xywh\<close>. \<open>from_mask\<close> hands the result to \<open>from_xywh\<close>, which takes normalized
  coordinates (its docstring) and flags them so, and by section 3 normalized
  coordinates are fractions of the image width and height: the rectangle is divided by
  the width and the height of the mask. The spec leaves the result for a mask without
  foreground undefined; the model returns \<open>Inl EmptyMask\<close> there.\<close>

definition mask_to_bbox :: "dense_mask \<Rightarrow> py_error + real list" where
  "mask_to_bbox m =
     (let height = fst (mask_shape m); width = snd (mask_shape m); ps = foreground m in
      if ps = [] then Inl EmptyMask
      else
        let rmin = Min (set (map fst ps)); rmax = Max (set (map fst ps));
            cmin = Min (set (map snd ps)); cmax = Max (set (map snd ps))
        in Inr [real cmin / real width, real rmin / real height,
                real (cmax - cmin + 1) / real width, real (rmax - rmin + 1) / real height])"

definition from_mask :: "dense_mask \<Rightarrow> py_error + real BBox" where
  "from_mask m = then_do (mask_to_bbox m) (\<lambda>xywh. Inr (from_xywh xywh))"

section \<open>Annotations\<close>

text \<open>Modelled from the spec: the classes \<open>CompressedRLE\<close>, \<open>Pose\<close> and
  \<open>ObjectAnnotation\<close> of pixano/core, which are not under src/. Section 3 gives their
  fields, and so does the legacy type signature quoted in pixano/api/items.py. The
  counts of a mask are either the run lengths of the interchange form (URLE) or the
  packed bytes of the compressed form.\<close>

datatype rle_counts = Runs "nat list" | Packed "8 word list"

record CompressedRLE =
  size_hw :: "nat list"
  counts :: rle_counts

record Pose =
  cam_R_m2c :: "real list"
  cam_t_m2c :: "real list"

record ObjectAnnotation =
  ann_id :: string
  view_id :: string
  bbox :: "real BBox option"
  bbox_source :: "string option"
  bbox_confidence :: "real option"
  is_group_of :: "bool option"
  is_difficult :: "bool option"
  is_truncated :: "bool option"
  mask :: "CompressedRLE option"
  mask_source :: "string option"
  area :: "real option"
  pose :: "Pose option"
  category_id :: "int option"
  category_name :: "string option"
  identity :: "string option"

subsection \<open>The displayed source (load_item_details, pixano/api/items.py line 211)\<close>

text \<open>Python's \<open>a or b\<close> is \<open>a\<close> when \<open>a\<close> is truthy and \<open>b\<close> otherwise; \<open>None\<close> and the
  empty string are falsy, every other string is truthy.\<close>

definition py_or :: "string option \<Rightarrow> string \<Rightarrow> string" where
  "py_or a b = (case a of None \<Rightarrow> b | Some s \<Rightarrow> if s = [] then b else s)"

text \<open>\<open>source = obj.mask_source or obj.bbox_source or "Ground truth"\<close>\<close>

definition object_source :: "ObjectAnnotation \<Rightarrow> string" where
  "object_source obj = py_or (mask_source obj) (py_or (bbox_source obj) ''Ground truth'')"

text \<open>An annotation with nothing but its identifiers, the starting point of the
  concrete annotations used below.\<close>

definition annotation0 :: ObjectAnnotation where
  "annotation0 =
     \<lparr>ann_id = ''obj_0'', view_id = ''image'', bbox = None, bbox_source = None,
      bbox_confidence = None, is_group_of = None, is_difficult = None, is_truncated = None,
      mask = None, mask_source = None, area = None, pose = None, category_id = None,
      category_name = None, identity = None\<rparr>"

section \<open>Python values\<close>

text \<open>The values that \<open>json.load\<close> returns and that a table cell can hold: \<open>None\<close>,
  booleans, numbers, strings, lists and dictionaries (in insertion order).\<close>

datatype pyval =
  PyNone | PyBool bool | PyInt int | PyFloat real | PyStr string
  | PyList "pyval list" | PyDict "(string \<times> pyval) list"

text \<open>\<open>d[k]\<close> and \<open>d[k] = v\<close> on a dictionary: a new key goes to the end, an existing key
  keeps its place.\<close>

definition dict_get :: "(string \<times> pyval) list \<Rightarrow> string \<Rightarrow> py_error + pyval" where
  "dict_get d k = (case map_of d k of None \<Rightarrow> Inl KeyError | Some v \<Rightarrow> Inr v)"

fun dict_set :: "(string \<times> pyval) list \<Rightarrow> string \<Rightarrow> pyval \<Rightarrow> (string \<times> pyval) list" where
  "dict_set [] k v = [(k, v)]"
| "dict_set ((k', v') # d) k v = (if k' = k then (k, v) # d else (k', v') # dict_set d k v)"

section \<open>Dataset statistics (pixano/data/dataset/dataset_stat.py)\<close>

text \<open>The class \<open>DatasetStat\<close>; its fields \<open>name\<close>, \<open>type\<close> and \<open>range\<close> carry the prefix
  \<open>stat_\<close> here.\<close>

record DatasetStat =
  stat_name :: string
  stat_type :: string
  histogram :: "(string \<times> pyval) list list"
  stat_range :: "pyval list option"

text \<open>What the comprehension \<open>[stat for stat in json_stats if ...]\<close> iterates over: the
  elements of a list, the keys of a dictionary, the characters of a string; any other
  value is not iterable.\<close>

fun iterate :: "pyval \<Rightarrow> py_error + pyval list" where
  "iterate (PyList xs) = Inr xs"
| "iterate (PyDict kvs) = Inr (map (\<lambda>kv. PyStr (fst kv)) kvs)"
| "iterate (PyStr s) = Inr (map (\<lambda>c. PyStr [c]) s)"
| "iterate _ = Inl TypeError"

text \<open>\<open>stat["name"] != self.name\<close>\<close>

fun other_name :: "string \<Rightarrow> pyval \<Rightarrow> py_error + bool" where
  "other_name n (PyDict kvs) = then_do (dict_get kvs ''name'') (\<lambda>v. Inr (v \<noteq> PyStr n))"
| "other_name n _ = Inl TypeError"

fun keep_other_stats :: "string \<Rightarrow> pyval list \<Rightarrow> py_error + pyval list" where
  "keep_other_stats n [] = Inr []"
| "keep_other_stats n (s # ss) =
     then_do (other_name n s) (\<lambda>k.
     then_do (keep_other_stats n ss) (\<lambda>r. Inr (if k then s # r else r)))"

text \<open>The dictionary that \<open>to_json\<close> appends: \<open>name\<close>, \<open>type\<close> and \<open>histogram\<close>.\<close>

definition stat_record :: "DatasetStat \<Rightarrow> pyval" where
  "stat_record self =
     PyDict [(''name'', PyStr (stat_name self)), (''type'', PyStr (stat_type self)),
             (''histogram'', PyList (map PyDict (histogram self)))]"

text \<open>\<open>to_json\<close>: the file is given by its parsed content, \<open>None\<close> when it does not
  exist; the result is the content written back, or the exception raised before the
  file is opened for writing.\<close>

definition to_json :: "DatasetStat \<Rightarrow> pyval option \<Rightarrow> py_error + pyval" where
  "to_json self json_fp =
     then_do (case json_fp of None \<Rightarrow> Inr [] | Some content \<Rightarrow> iterate content) (\<lambda>json_stats.
     then_do (keep_other_stats (stat_name self) json_stats) (\<lambda>kept.
     Inr (PyList (kept @ [stat_record self]))))"

section \<open>Natural keys and the mask codec\<close>

text \<open>Modelled from the spec: \<open>natural_key\<close> of pixano/utils, which is not under src/.
  Section 6: embedded digit runs compare as integers. The key of a string is the list
  of its pieces, each a run of non-digits paired with the value of the digit run that
  follows it (\<open>None\<close> after the last piece); keys compare lexicographically.\<close>

definition is_digit :: "char \<Rightarrow> bool" where
  "is_digit c = (c \<in> set ''0123456789'')"

definition int_of_digits :: "string \<Rightarrow> nat" where
  "int_of_digits ds = foldl (\<lambda>a c. 10 * a + (of_char c - 48)) 0 ds"

function natural_key :: "string \<Rightarrow> (string \<times> nat option) list" where
  "natural_key s =
     (let txt = takeWhile (\<lambda>c. \<not> is_digit c) s; rest = dropWhile (\<lambda>c. \<not> is_digit c) s
      in if rest = [] then [(txt, None)]
         else (txt, Some (int_of_digits (takeWhile is_digit rest)))
              # natural_key (dropWhile is_digit rest))"
  by pat_completeness auto
termination
proof (relation "measure length")
  show "wf (measure length)" by simp
next
  fix s :: string and x xa :: string
  assume rest: "xa = dropWhile (\<lambda>c. \<not> is_digit c) s" and ne: "xa \<noteq> []"
  from ne obtain c cs where r: "xa = c # cs" by (cases xa) auto
  have "dropWhile (\<lambda>c. \<not> is_digit c) s = c # cs" using rest r by simp
  then have "is_digit c" by (simp add: dropWhile_eq_Cons_conv)
  then have "length (dropWhile is_digit xa) < length xa"
    using r by (simp add: le_imp_less_Suc length_dropWhile_le)
  moreover have "length xa \<le> length s" using rest by (simp add: length_dropWhile_le)
  ultimately show "(dropWhile is_digit xa, s) \<in> measure length" by simp
qed

declare natural_key.simps [simp del]

text \<open>Modelled from the spec: \<open>CompressedRLE.from_urle\<close> and \<open>CompressedRLE.to_mask\<close> of
  pixano/core, which are not under src/. Section 4.2: the run lengths alternate,
  starting with the background, over the pixels in row-major order; the byte packing
  is left to the implementation, so it is a parameter (\<open>pack\<close>, \<open>unpack\<close>); decoding
  fails with \<open>DecodeError\<close> when the runs do not add up to height times width.\<close>

record codec =
  pack :: "nat list \<Rightarrow> 8 word list"
  unpack :: "8 word list \<Rightarrow> nat list"

definition from_urle :: "codec \<Rightarrow> CompressedRLE \<Rightarrow> py_error + CompressedRLE" where
  "from_urle C urle =
     (case counts urle of
        Runs rs \<Rightarrow> Inr \<lparr>size_hw = size_hw urle, counts = Packed (pack C rs)\<rparr>
      | Packed bs \<Rightarrow> Inl TypeError)"

fun expand_runs :: "bool \<Rightarrow> nat list \<Rightarrow> bool list" where
  "expand_runs b [] = []"
| "expand_runs b (n # ns) = replicate n b @ expand_runs (\<not> b) ns"

fun rows_of :: "nat \<Rightarrow> nat \<Rightarrow> bool list \<Rightarrow> dense_mask" where
  "rows_of 0 w px = []"
| "rows_of (Suc h) w px = take w px # rows_of h w (drop w px)"

definition to_mask :: "codec \<Rightarrow> CompressedRLE \<Rightarrow> py_error + dense_mask" where
  "to_mask C m =
     (case counts m of
        Runs rs \<Rightarrow> Inl TypeError
      | Packed bs \<Rightarrow>
          (case size_hw m of
             [h, w] \<Rightarrow>
               (let px = expand_runs False (unpack C bs)
                in if length px = h * w then Inr (rows_of h w px) else Inl DecodeError)
           | _ \<Rightarrow> Inl DecodeError))"

text \<open>A byte packing for the concrete examples: a run length is written as a sequence
  of bytes 255 followed by one byte below 255, which add up to it.\<close>

fun pack_run :: "nat \<Rightarrow> 8 word list" where
  "pack_run n = (if n < 255 then [of_nat n] else 255 # pack_run (n - 255))"

fun unpack_runs :: "nat \<Rightarrow> 8 word list \<Rightarrow> nat list" where
  "unpack_runs acc [] = []"
| "unpack_runs acc (b # bs) =
     (if b = 255 then unpack_runs (acc + 255) bs else (acc + unat b) # unpack_runs 0 bs)"

definition byte_codec :: codec where
  "byte_codec = \<lparr>pack = (\<lambda>rs. concat (map pack_run rs)), unpack = unpack_runs 0\<rparr>"

section \<open>The field converter (pixano/core/arrow_types/__init__.py)\<close>

text \<open>The type of a column and the target type of a conversion, as the code tells the
  cases apart: a list type, a struct type with its fields in order, an extension type,
  given by what \<open>str\<close> prints of it (its name and class) and by its storage type, and
  every other type, given by its \<open>str\<close>.\<close>

datatype pa_type =
  Primitive string
  | ListType pa_type
  | StructType "(string \<times> pa_type) list"
  | ExtensionType string pa_type

text \<open>\<open>str(t)\<close> of a type, as pyarrow prints it.\<close>

fun type_str :: "pa_type \<Rightarrow> string"
  and fields_str :: "(string \<times> pa_type) list \<Rightarrow> string" where
  "type_str (Primitive s) = s"
| "type_str (ListType t) = ''list<item: '' @ type_str t @ ''>''"
| "type_str (StructType fs) = ''struct<'' @ fields_str fs @ ''>''"
| "type_str (ExtensionType e storage_type) = ''extension<'' @ e @ ''>''"
| "fields_str [] = []"
| "fields_str ((n, t) # fs) =
     n @ '': '' @ type_str t @ (if fs = [] then [] else '', '' @ fields_str fs)"

text \<open>The arrays that \<open>convert_field\<close> returns: \<open>pa.nulls(n, type)\<close>, the result of
  \<open>pa.array(data, type=t)\<close>, \<open>pa.ListArray.from_arrays(offsets, values)\<close>,
  \<open>pa.StructArray.from_arrays(arrays, fields)\<close> with each child under its field name,
  and \<open>pa.ExtensionArray.from_storage(type, storage)\<close>. The list and struct arrays are
  built without a validity mask, so none of their rows is null.\<close>

datatype pa_array =
  NullArray nat pa_type
  | PlainArray pa_type "pyval list"
  | ListArray "nat list" pa_array
  | StructArray "(string \<times> pa_array) list"
  | ExtensionArray pa_type pa_array

text \<open>\<open>to_pylist()\<close>, the Python values that an array is read as: \<open>None\<close> for each row of
  a null array, the list between two offsets for a row of a list array, a dictionary of
  the children's values for a row of a struct array (the children have one length), and
  the storage values for an extension array.\<close>

definition list_rows :: "nat list \<Rightarrow> pyval list \<Rightarrow> pyval list" where
  "list_rows offsets vals =
     map (\<lambda>ab. PyList (take (snd ab - fst ab) (drop (fst ab) vals))) (zip offsets (tl offsets))"

definition struct_row :: "(string \<times> pyval list) list \<Rightarrow> nat \<Rightarrow> pyval" where
  "struct_row cols i =
     PyDict (map (\<lambda>nc. (fst nc, if i < length (snd nc) then snd nc ! i else PyNone)) cols)"

definition struct_rows :: "(string \<times> pyval list) list \<Rightarrow> pyval list" where
  "struct_rows cols =
     (case cols of [] \<Rightarrow> [] | nc # _ \<Rightarrow> map (struct_row cols) [0..<length (snd nc)])"

fun to_pylist :: "pa_array \<Rightarrow> pyval list"
  and children_pylists :: "(string \<times> pa_array) list \<Rightarrow> (string \<times> pyval list) list" where
  "to_pylist (NullArray k t) = replicate k PyNone"
| "to_pylist (PlainArray t vs) = vs"
| "to_pylist (ListArray offsets vals) = list_rows offsets (to_pylist vals)"
| "to_pylist (StructArray children) = struct_rows (children_pylists children)"
| "to_pylist (ExtensionArray t storage) = to_pylist storage"
| "children_pylists [] = []"
| "children_pylists ((n, a) # rest) = (n, to_pylist a) # children_pylists rest"

text \<open>Three functions of the libraries are parameters: the typed conversion
  \<open>pa.array(data, type=t)\<close>, which can raise; \<open>to_numpy(zero_copy_only=False)\<close>, which
  hands the values of a child array on to the recursive call; and the empty value that
  the builder of an inferred child type appends under a null struct row (\<open>0\<close>, \<open>''\<close>,
  \<open>False\<close>, ...), given the values from which the child's type is inferred.\<close>

record pyarrow =
  array_typed :: "pa_type \<Rightarrow> pyval list \<Rightarrow> py_error + pa_array"
  to_numpy :: "pyval list \<Rightarrow> pyval list"
  empty_value :: "pyval list \<Rightarrow> pyval"

text \<open>\<open>pa.array(field_data)\<close> without a type infers one from the values. The model
  keeps what \<open>convert_field\<close> uses of the result: a \<open>NullArray\<close> when every value is
  \<open>None\<close>; a struct array, with the union of the keys as its fields, when the other
  values are dictionaries; a list array when they are lists; some other array when
  they are scalars; and an exception when dictionaries or lists are mixed with other
  values. The types of nested values are not inferred here.\<close>

datatype native =
  NativeNull nat
  | NativeStruct "string list" "pyval list"
  | NativeList "pyval list"
  | NativeOther

definition is_dict :: "pyval \<Rightarrow> bool" where
  "is_dict v = (case v of PyDict _ \<Rightarrow> True | _ \<Rightarrow> False)"

definition is_list :: "pyval \<Rightarrow> bool" where
  "is_list v = (case v of PyList _ \<Rightarrow> True | _ \<Rightarrow> False)"

definition dict_keys :: "pyval \<Rightarrow> string list" where
  "dict_keys v = (case v of PyDict kvs \<Rightarrow> map fst kvs | _ \<Rightarrow> [])"

definition infer_array :: "pyval list \<Rightarrow> py_error + native" where
  "infer_array field_data =
     (let vals = filter (\<lambda>v. v \<noteq> PyNone) field_data in
      if vals = [] then Inr (NativeNull (length field_data))
      else if list_all is_dict vals
        then Inr (NativeStruct (remdups (concat (map dict_keys vals))) field_data)
      else if list_all is_list vals then Inr (NativeList field_data)
      else if list_ex is_dict vals \<or> list_ex is_list vals then Inl ArrowInvalid
      else Inr NativeOther)"

text \<open>The values under a key in the rows that are dictionaries with that key: what the
  type of the child of that name is inferred from.\<close>

definition key_values :: "string \<Rightarrow> pyval list \<Rightarrow> pyval list" where
  "key_values n rows =
     concat (map (\<lambda>row. case row of
                          PyDict kvs \<Rightarrow> (case map_of kvs n of Some v \<Rightarrow> [v] | None \<Rightarrow> [])
                        | _ \<Rightarrow> []) rows)"

text \<open>The value of a field in a row of the inferred struct array, as the child array
  holds it: the entry of the dictionary; null when the dictionary has no such key; and
  under a row that is \<open>None\<close> the empty value of the child's type, which is not null,
  because the struct builder appends an empty value to every child there and
  \<open>native_arr.field\<close> returns the child without the validity of the parent.\<close>

definition row_value :: "pyarrow \<Rightarrow> string \<Rightarrow> pyval list \<Rightarrow> pyval \<Rightarrow> pyval" where
  "row_value P n rows row =
     (case row of
        PyDict kvs \<Rightarrow> (case map_of kvs n of Some v \<Rightarrow> v | None \<Rightarrow> PyNone)
      | _ \<Rightarrow> empty_value P (key_values n rows))"

text \<open>\<open>native_arr.field(name)\<close>: the child array of a field of the struct array, and
  \<open>KeyError\<close> when the struct array has no field of that name.\<close>

definition struct_field ::
  "pyarrow \<Rightarrow> string list \<Rightarrow> pyval list \<Rightarrow> string \<Rightarrow> py_error + pyval list" where
  "struct_field P names rows n =
     (if n \<in> set names then Inr (map (row_value P n rows) rows) else Inl KeyError)"

text \<open>\<open>native_arr.values\<close> and \<open>native_arr.offsets\<close> of a list array: the elements of all
  lists in order, and the positions where the rows start and end; a null row is
  empty.\<close>

definition row_elements :: "pyval \<Rightarrow> pyval list" where
  "row_elements row = (case row of PyList xs \<Rightarrow> xs | _ \<Rightarrow> [])"

definition list_values :: "pyval list \<Rightarrow> pyval list" where
  "list_values rows = concat (map row_elements rows)"

fun offsets_from :: "nat \<Rightarrow> pyval list \<Rightarrow> nat list" where
  "offsets_from k [] = [k]"
| "offsets_from k (row # rows) = k # offsets_from (k + length (row_elements row)) rows"

text \<open>\<open>pa.StructArray.from_arrays(arrays, fields=field_type)\<close>, called without a mask,
  raises unless the children have one length.\<close>

definition struct_from_arrays :: "(string \<times> pa_array) list \<Rightarrow> py_error + pa_array" where
  "struct_from_arrays arrays =
     (if list_all (\<lambda>na. length (to_pylist (snd na)) = length (to_pylist (snd (hd arrays)))) arrays
      then Inr (StructArray arrays) else Inl ArrowInvalid)"

text \<open>\<open>convert_field(field_name, field_type, field_data)\<close>, with the loop over the
  fields of a struct type as \<open>convert_subfields\<close>.\<close>

fun convert_field :: "pyarrow \<Rightarrow> string \<Rightarrow> pa_type \<Rightarrow> pyval list \<Rightarrow> py_error + pa_array"
  and convert_subfields ::
    "pyarrow \<Rightarrow> string \<Rightarrow> (string \<times> pa_type) list \<Rightarrow> string list \<Rightarrow> pyval list
       \<Rightarrow> py_error + (string \<times> pa_array) list" where
  "convert_field P field_name (ExtensionType e storage_type) field_data =
     then_do (array_typed P storage_type field_data) (\<lambda>storage.
       Inr (ExtensionArray (ExtensionType e storage_type) storage))"
| "convert_field P field_name (ListType value_type) field_data =
     (case infer_array field_data of
        Inl e \<Rightarrow> Inl e
      | Inr (NativeNull k) \<Rightarrow> Inr (NullArray k (ListType value_type))
      | Inr (NativeList rows) \<Rightarrow>
          then_do (convert_field P (field_name @ ''.elements'') value_type
                     (to_numpy P (list_values rows))) (\<lambda>values.
            Inr (ListArray (offsets_from 0 rows) values))
      | Inr _ \<Rightarrow> Inl AttributeError)"
| "convert_field P field_name (StructType subfields) field_data =
     (case infer_array field_data of
        Inl e \<Rightarrow> Inl e
      | Inr (NativeNull k) \<Rightarrow> Inr (NullArray k (StructType subfields))
      | Inr (NativeStruct names rows) \<Rightarrow>
          then_do (convert_subfields P field_name subfields names rows) struct_from_arrays
      | Inr _ \<Rightarrow> Inl AttributeError)"
| "convert_field P field_name (Primitive p) field_data = array_typed P (Primitive p) field_data"
| "convert_subfields P field_name [] names rows = Inr []"
| "convert_subfields P field_name ((n, subfield_type) # rest) names rows =
     then_do (struct_field P names rows n) (\<lambda>sub_arr.
     then_do (convert_field P (field_name @ ''.'' @ n) subfield_type (to_numpy P sub_arr))
       (\<lambda>converted.
     then_do (convert_subfields P field_name rest names rows) (\<lambda>arrays.
       Inr ((n, converted) # arrays))))"

text \<open>Library functions for the concrete examples: a typed conversion that accepts
  every value, a \<open>to_numpy\<close> that hands the values on unchanged, and the empty values of
  the types inferred for booleans, integers, floats, strings and lists.\<close>

definition scalar_empty :: "pyval list \<Rightarrow> pyval" where
  "scalar_empty vals =
     (case filter (\<lambda>v. v \<noteq> PyNone) vals of
        [] \<Rightarrow> PyNone
      | v # _ \<Rightarrow> (case v of
                    PyBool _ \<Rightarrow> PyBool False
                  | PyInt _ \<Rightarrow> PyInt 0
                  | PyFloat _ \<Rightarrow> PyFloat 0
                  | PyStr _ \<Rightarrow> PyStr []
                  | PyList _ \<Rightarrow> PyList []
                  | _ \<Rightarrow> PyNone))"

definition example_pyarrow :: pyarrow where
  "example_pyarrow =
     \<lparr>array_typed = (\<lambda>t data. Inr (PlainArray t data)), to_numpy = (\<lambda>vs. vs),
      empty_value = scalar_empty\<rparr>"

section \<open>The update transaction (save_item_annotations, pixano/api/items.py)\<close>

subsection \<open>First loop: the caller's annotations\<close>

text \<open>The caller's list holds references to annotation objects; the heap gives the
  object at each address. An assignment to \<open>ann.mask\<close> or \<open>ann.bbox\<close> updates the heap,
  and an exception leaves the heap as it is at that moment.\<close>

type_synonym heap = "nat \<Rightarrow> ObjectAnnotation"

definition normalize_annotation :: "codec \<Rightarrow> nat \<Rightarrow> heap \<Rightarrow> py_error option \<times> heap" where
  "normalize_annotation C r h =
     (case mask (h r) of
        None \<Rightarrow> (Some AttributeError, h)
      | Some m \<Rightarrow>
         (case from_urle C m of
            Inl e \<Rightarrow> (Some e, h)
          | Inr m' \<Rightarrow>
             (let h1 = h(r := (h r)\<lparr>mask := Some m'\<rparr>) in
              case bbox (h1 r) of
                None \<Rightarrow> (Some AttributeError, h1)
              | Some b \<Rightarrow>
                 if coords b \<noteq> [0, 0, 0, 0] then (None, h1)
                 else (case then_do (to_mask C m') from_mask of
                         Inl e \<Rightarrow> (Some e, h1)
                       | Inr b' \<Rightarrow> (None, h1(r := (h1 r)\<lparr>bbox := Some b'\<rparr>))))))"

fun normalize_annotations :: "codec \<Rightarrow> nat list \<Rightarrow> heap \<Rightarrow> py_error option \<times> heap" where
  "normalize_annotations C [] h = (None, h)"
| "normalize_annotations C (r # rs) h =
     (case normalize_annotation C r h of
        (Some e, h') \<Rightarrow> (Some e, h')
      | (None, h') \<Rightarrow> normalize_annotations C rs h')"

subsection \<open>Tables\<close>

text \<open>A path is a string; \<open>path_name\<close> is \<open>Path.name\<close>, the part after the last slash.\<close>

type_synonym path = string

definition path_name :: "path \<Rightarrow> string" where
  "path_name p = rev (takeWhile (\<lambda>c. c \<noteq> CHR ''/'') (rev p))"

text \<open>A field of a schema: its name and its type. The two strings that lines 286 to
  300 compare \<open>str(field.type)\<close> with are the signatures of the legacy annotation list
  and of the legacy image type.\<close>

record field =
  name :: string
  ftype :: pa_type

definition legacy_objects_signature :: string where
  "legacy_objects_signature =
     ''list<item: struct<id: string, view_id: string, ''
     @ ''bbox: fixed_size_list<item: float>[4], bbox_source: string, ''
     @ ''bbox_confidence: float, is_group_of: bool, is_difficult: bool, ''
     @ ''is_truncated: bool, mask: struct<size: list<item: int32>, counts: binary>, ''
     @ ''mask_source: string, area: float, ''
     @ ''pose: struct<cam_R_m2c: fixed_size_list<item: double>[9], ''
     @ ''cam_t_m2c: fixed_size_list<item: double>[3]>, ''
     @ ''category_id: int32, category_name: string, identity: string>>''"

definition legacy_image_signature :: string where
  "legacy_image_signature = ''extension<Image<CustomExtensionType>>''"

text \<open>An image (the constructor arguments of the tests), and an element of an
  annotation list: an \<open>ObjectAnnotation\<close> instance, or the dictionary that a struct
  column of the legacy layout is read as.\<close>

record Image =
  uri :: string
  bytes :: "8 word list option"
  preview_bytes :: "8 word list option"
  uri_prefix :: "string option"

datatype obj = Instance ObjectAnnotation | AsDict "(string \<times> pyval) list"

datatype cell = Py pyval | Objects "obj list" | Img Image

text \<open>A table is the list of its columns, each with its field and with the Python
  values that its array is read as (\<open>to_pydict\<close>, \<open>to_pylist\<close>); a table read from a file
  has columns of one length.\<close>

type_synonym table = "(field \<times> cell list) list"

definition rectangular :: "table \<Rightarrow> bool" where
  "rectangular t = (\<forall>c \<in> set (map snd t). length c = length (snd (hd t)))"

text \<open>\<open>Schema.get_field_index\<close> is -1 unless exactly one field has the name;
  \<open>Schema.remove\<close> raises for an index out of range.\<close>

definition get_field_index :: "field list \<Rightarrow> string \<Rightarrow> int" where
  "get_field_index sch n =
     (case filter (\<lambda>i. name (sch ! i) = n) [0..<length sch] of [i] \<Rightarrow> int i | _ \<Rightarrow> - 1)"

definition schema_remove :: "field list \<Rightarrow> int \<Rightarrow> py_error + field list" where
  "schema_remove sch i =
     (if 0 \<le> i \<and> i < int (length sch) then Inr (take (nat i) sch @ drop (Suc (nat i)) sch)
      else Inl ArrowInvalid)"

text \<open>What the transaction uses of pixano/core and pyarrow and is not under src/: the
  mask codec and the library functions of the converter, the types
  \<open>ObjectAnnotationType\<close> and \<open>ImageType\<close>, the two type predicates, the dictionary
  conversions of images and annotations, and the array builders
  \<open>ObjectAnnotationType.Array.from_lists\<close> and \<open>ImageType.Array.from_list\<close>, each giving the
  cells that the array it builds is read as.\<close>

record env =
  mask_codec :: codec
  pyarrow_lib :: pyarrow
  ObjectAnnotationType :: pa_type
  ImageType :: pa_type
  is_image_type :: "pa_type \<Rightarrow> bool"
  is_list_of_object_annotation_type :: "pa_type \<Rightarrow> bool"
  image_to_dict :: "Image \<Rightarrow> (string \<times> pyval) list"
  image_from_dict :: "(string \<times> pyval) list \<Rightarrow> py_error + Image"
  annotation_to_dict :: "ObjectAnnotation \<Rightarrow> (string \<times> pyval) list"
  annotation_from_dict :: "(string \<times> pyval) list \<Rightarrow> py_error + ObjectAnnotation"
  objects_from_lists :: "cell list \<Rightarrow> py_error + cell list"
  images_from_list :: "cell list \<Rightarrow> py_error + cell list"

subsection \<open>Legacy types (lines 283 to 300)\<close>

text \<open>The body of the loop for one field: \<open>acc\<close> holds the schema and
  \<open>fields_to_update\<close> as they are before it.\<close>

definition legacy_field ::
  "env \<Rightarrow> field \<Rightarrow> field list \<times> string list \<Rightarrow> py_error + field list \<times> string list" where
  "legacy_field E f acc =
     then_do
       (if type_str (ftype f) = legacy_objects_signature
        then then_do (schema_remove (fst acc) (get_field_index (fst acc) ''objects''))
               (\<lambda>s. Inr (s @ [\<lparr>name = name f, ftype = ListType (ObjectAnnotationType E)\<rparr>],
                          snd acc @ [name f]))
        else Inr acc)
       (\<lambda>acc1.
          if type_str (ftype f) = legacy_image_signature
          then then_do (schema_remove (fst acc1) (get_field_index (fst acc1) (name f)))
                 (\<lambda>s. Inr (s @ [\<lparr>name = name f, ftype = ImageType E\<rparr>], snd acc1 @ [name f]))
          else Inr acc1)"

fun legacy_fields ::
  "env \<Rightarrow> field list \<Rightarrow> field list \<times> string list \<Rightarrow> py_error + field list \<times> string list" where
  "legacy_fields E [] acc = Inr acc"
| "legacy_fields E (f # fs) acc = then_do (legacy_field E f acc) (legacy_fields E fs)"

subsection \<open>Looking the item up (lines 302 to 314)\<close>

definition table_column :: "table \<Rightarrow> string \<Rightarrow> py_error + cell list" where
  "table_column t n =
     (let i = get_field_index (map fst t) n
      in if i < 0 then Inl ArrowInvalid else Inr (snd (t ! nat i)))"

definition filter_rows :: "bool list \<Rightarrow> cell list \<Rightarrow> cell list" where
  "filter_rows keep col = map snd (filter fst (zip keep col))"

definition table_filter :: "bool list \<Rightarrow> table \<Rightarrow> table" where
  "table_filter keep t = map (\<lambda>fc. (fst fc, filter_rows keep (snd fc))) t"

text \<open>\<open>to_pydict()\<close>, and the first dictionary of \<open>to_pylist()\<close> for a table with a row;
  of two columns with one name the later one is in the dictionary.\<close>

definition to_pydict :: "table \<Rightarrow> (string \<rightharpoonup> cell list)" where
  "to_pydict t = map_of (rev (map (\<lambda>fc. (name (fst fc), snd fc)) t))"

definition first_row :: "table \<Rightarrow> (string \<rightharpoonup> cell)" where
  "first_row t =
     map_of (rev (map (\<lambda>fc. (name (fst fc), case snd fc of [] \<Rightarrow> Py PyNone | v # _ \<Rightarrow> v)) t))"

fun append_row ::
  "field list \<Rightarrow> (string \<rightharpoonup> cell) \<Rightarrow> (string \<rightharpoonup> cell list) \<Rightarrow> py_error + (string \<rightharpoonup> cell list)" where
  "append_row [] row ut = Inr ut"
| "append_row (f # fs) row ut =
     (case (ut (name f), row (name f)) of
        (Some col, Some v) \<Rightarrow> append_row fs row (ut(name f \<mapsto> col @ [v]))
      | _ \<Rightarrow> Inl KeyError)"

subsection \<open>Sorting by the identifiers (lines 316 to 327)\<close>

fun map_result :: "('a \<Rightarrow> py_error + 'b) \<Rightarrow> 'a list \<Rightarrow> py_error + 'b list" where
  "map_result f [] = Inr []"
| "map_result f (x # xs) = then_do (f x) (\<lambda>y. then_do (map_result f xs) (\<lambda>ys. Inr (y # ys)))"

text \<open>\<open>natural_key\<close> takes a string; on any other value its \<open>re.split\<close> raises.\<close>

definition id_string :: "cell \<Rightarrow> py_error + string" where
  "id_string c = (case c of Py (PyStr s) \<Rightarrow> Inr s | _ \<Rightarrow> Inl TypeError)"

text \<open>\<open>[x for _, x in sorted(zip(ids, col), key=lambda pair: natural_key(pair[0]))]\<close>;
  \<open>zip\<close> stops at the shorter list, and \<open>sorted\<close> is stable.\<close>

definition sort_column :: "cell list \<Rightarrow> cell list \<Rightarrow> py_error + cell list" where
  "sort_column ids col =
     then_do (map_result id_string (take (length col) ids)) (\<lambda>keys.
       Inr (map snd (sort_key (\<lambda>pair. natural_key (fst pair)) (zip keys col))))"

fun sort_fields :: "field list \<Rightarrow> (string \<rightharpoonup> cell list) \<Rightarrow> py_error + (string \<rightharpoonup> cell list)" where
  "sort_fields [] ut = Inr ut"
| "sort_fields (f # fs) ut =
     (if name f \<noteq> ''id''
      then (case (ut ''id'', ut (name f)) of
              (Some ids, Some col) \<Rightarrow>
                then_do (sort_column ids col) (\<lambda>c. sort_fields fs (ut(name f \<mapsto> c)))
            | _ \<Rightarrow> Inl KeyError)
      else sort_fields fs ut)"

definition sort_ids :: "(string \<rightharpoonup> cell list) \<Rightarrow> py_error + (string \<rightharpoonup> cell list)" where
  "sort_ids ut =
     (case ut ''id'' of
        None \<Rightarrow> Inl KeyError
      | Some ids \<Rightarrow>
          then_do (map_result id_string ids) (\<lambda>keys.
            Inr (ut(''id'' \<mapsto> map (\<lambda>s. Py (PyStr s)) (sort_key natural_key keys)))))"

subsection \<open>Migrating legacy columns (lines 329 to 354)\<close>

definition upgrade_image :: "env \<Rightarrow> cell \<Rightarrow> py_error + cell" where
  "upgrade_image E c =
     (case c of
        Img i \<Rightarrow> then_do (image_from_dict E (image_to_dict E i)) (\<lambda>i'. Inr (Img i'))
      | _ \<Rightarrow> Inl AttributeError)"

definition upgrade_object :: "env \<Rightarrow> obj \<Rightarrow> py_error + obj" where
  "upgrade_object E ob =
     (let d = (case ob of AsDict d \<Rightarrow> d | Instance a \<Rightarrow> annotation_to_dict E a)
      in then_do (dict_get d ''bbox'') (\<lambda>b.
           let d1 = (case b of
                       PyList xs \<Rightarrow>
                         dict_set d ''bbox''
                           (PyDict [(''coords'', PyList xs), (''format'', PyStr ''xywh'')])
                     | _ \<Rightarrow> d);
               d2 = dict_set d1 ''mask_source'' (PyStr '''');
               d3 = dict_set d2 ''bbox_source'' (PyStr '''')
           in then_do (annotation_from_dict E d3) (\<lambda>a. Inr (Instance a))))"

definition upgrade_objects :: "env \<Rightarrow> cell \<Rightarrow> py_error + cell" where
  "upgrade_objects E c =
     (case c of
        Objects obs \<Rightarrow> then_do (map_result (upgrade_object E) obs) (\<lambda>obs'. Inr (Objects obs'))
      | _ \<Rightarrow> Inl TypeError)"

definition upgrade_column ::
  "(cell \<Rightarrow> py_error + cell) \<Rightarrow> string \<Rightarrow> (string \<rightharpoonup> cell list) \<Rightarrow> py_error + (string \<rightharpoonup> cell list)" where
  "upgrade_column up n ut =
     (case ut n of
        None \<Rightarrow> Inl KeyError
      | Some col \<Rightarrow> then_do (map_result up col) (\<lambda>col'. Inr (ut(n \<mapsto> col'))))"

fun migrate_fields ::
  "env \<Rightarrow> string list \<Rightarrow> field list \<Rightarrow> (string \<rightharpoonup> cell list) \<Rightarrow> py_error + (string \<rightharpoonup> cell list)" where
  "migrate_fields E upd [] ut = Inr ut"
| "migrate_fields E upd (f # fs) ut =
     then_do (if is_image_type E (ftype f) \<and> name f \<in> set upd
              then upgrade_column (upgrade_image E) (name f) ut else Inr ut) (\<lambda>ut1.
     then_do (if is_list_of_object_annotation_type E (ftype f) \<and> name f \<in> set upd
              then upgrade_column (upgrade_objects E) (name f) ut1 else Inr ut1) (\<lambda>ut2.
     migrate_fields E upd fs ut2))"

subsection \<open>Building the arrays and the table (lines 356 to 378)\<close>

text \<open>The values handed to \<open>convert_field\<close> are the Python values of the cells; from
  an object that is not a plain Python value pyarrow cannot build an array.\<close>

definition cell_value :: "cell \<Rightarrow> py_error + pyval" where
  "cell_value c = (case c of Py v \<Rightarrow> Inr v | _ \<Rightarrow> Inl ArrowInvalid)"

text \<open>The array of one field (lines 359 to 372), as the cells that it is read as: the
  column goes through the builder of the annotation lists or of the images, or through
  \<open>convert_field\<close> with the field's type.\<close>

definition build_array :: "env \<Rightarrow> field \<Rightarrow> cell list \<Rightarrow> py_error + cell list" where
  "build_array E f col =
     (if is_list_of_object_annotation_type E (ftype f) then objects_from_lists E col
      else if is_image_type E (ftype f) then images_from_list E col
      else then_do (map_result cell_value col) (\<lambda>field_data.
           then_do (convert_field (pyarrow_lib E) (name f) (ftype f) field_data) (\<lambda>arr.
             Inr (map Py (to_pylist arr)))))"

fun build_arrays :: "env \<Rightarrow> field list \<Rightarrow> (string \<rightharpoonup> cell list) \<Rightarrow> py_error + cell list list" where
  "build_arrays E [] ut = Inr []"
| "build_arrays E (f # fs) ut =
     (case ut (name f) of
        None \<Rightarrow> Inl KeyError
      | Some col \<Rightarrow>
          then_do (build_array E f col) (\<lambda>arr.
          then_do (build_arrays E fs ut) (\<lambda>arrays. Inr (arr # arrays))))"

text \<open>\<open>pa.Table.from_arrays(arrays, schema=schema)\<close> raises unless the arrays have one
  length.\<close>

definition table_from_arrays :: "field list \<Rightarrow> cell list list \<Rightarrow> py_error + table" where
  "table_from_arrays sch arrays =
     (if rectangular (zip sch arrays) then Inr (zip sch arrays) else Inl ArrowInvalid)"

subsection \<open>One shard, and the loop over the files\<close>

text \<open>Lines 308 to 376 for a table that holds the item: \<open>found\<close> marks the rows of
  the item, \<open>leg\<close> is the updated schema with the names in \<open>fields_to_update\<close>; the
  result is the table to write.\<close>

definition replace_row ::
  "env \<Rightarrow> ObjectAnnotation list \<Rightarrow> table \<Rightarrow> field list \<times> string list \<Rightarrow> bool list
     \<Rightarrow> py_error + table" where
  "replace_row E annotations t leg found =
     (let updated_table = to_pydict (table_filter (map Not found) t);
          item0 = (first_row (table_filter found t))
                    (''objects'' \<mapsto> Objects (map Instance annotations))
      in
      then_do (append_row (fst leg) item0 updated_table) (\<lambda>ut1.
      then_do (sort_fields (fst leg) ut1) (\<lambda>ut2.
      then_do (sort_ids ut2) (\<lambda>ut3.
      then_do (migrate_fields E (snd leg) (fst leg) ut3) (\<lambda>ut4.
      then_do (build_arrays E (fst leg) ut4) (\<lambda>arrays.
      table_from_arrays (fst leg) arrays))))))"

text \<open>The body of the loop for one table that has been read: \<open>Inr None\<close> when the item
  is not in the table, \<open>Inr (Some t')\<close> with the table to write when it is.\<close>

definition update_shard ::
  "env \<Rightarrow> string \<Rightarrow> ObjectAnnotation list \<Rightarrow> table \<Rightarrow> py_error + table option" where
  "update_shard E item_id annotations t =
     then_do (legacy_fields E (map fst t) (map fst t, [])) (\<lambda>leg.
     then_do (table_column t ''id'') (\<lambda>ids.
       let found = map (\<lambda>c. c = Py (PyStr item_id)) ids in
       if True \<notin> set found then Inr None
       else then_do (replace_row E annotations t leg found) (\<lambda>t'. Inr (Some t'))))"

text \<open>The file system: the parquet files under \<open>dataset_dir/db\<close> in the order in which
  \<open>glob\<close> lists them, each with its table. The operations on it are \<open>pq.read_table\<close>
  and \<open>pq.write_table\<close>, and the transaction records each one it performs.\<close>

datatype fs_event = ReadTable path | WriteTable path table

record store =
  heap :: heap
  files :: "(path \<times> table) list"
  events :: "fs_event list"

definition read_table :: "(path \<times> table) list \<Rightarrow> path \<Rightarrow> py_error + table" where
  "read_table fs p =
     (case map_of fs p of
        None \<Rightarrow> Inl FileNotFoundError
      | Some t \<Rightarrow> if rectangular t then Inr t else Inl ArrowInvalid)"

definition write_table :: "table \<Rightarrow> path \<Rightarrow> (path \<times> table) list \<Rightarrow> (path \<times> table) list" where
  "write_table t p fs = map (\<lambda>qt. if fst qt = p then (p, t) else qt) fs"

fun update_files ::
  "env \<Rightarrow> string \<Rightarrow> ObjectAnnotation list \<Rightarrow> path list \<Rightarrow> store \<Rightarrow> py_error option \<times> store" where
  "update_files E item_id annotations [] st = (None, st)"
| "update_files E item_id annotations (file # rest) st =
     (let st1 = st\<lparr>events := events st @ [ReadTable file]\<rparr> in
      case then_do (read_table (files st) file) (update_shard E item_id annotations) of
        Inl e \<Rightarrow> (Some e, st1)
      | Inr None \<Rightarrow> update_files E item_id annotations rest st1
      | Inr (Some t') \<Rightarrow>
          update_files E item_id annotations rest
            (st1\<lparr>files := write_table t' file (files st1),
                 events := events st1 @ [WriteTable file t']\<rparr>))"

text \<open>\<open>save_item_annotations(dataset_dir, item_id, annotations)\<close>: the first loop over
  the caller's annotations, then the files sorted by the natural key of their names,
  then the loop over the files with the annotations as they now are.\<close>

definition save_item_annotations ::
  "env \<Rightarrow> string \<Rightarrow> nat list \<Rightarrow> store \<Rightarrow> py_error option \<times> store" where
  "save_item_annotations E item_id annotations st =
     (case normalize_annotations (mask_codec E) annotations (heap st) of
        (Some e, h) \<Rightarrow> (Some e, st\<lparr>heap := h\<rparr>)
      | (None, h) \<Rightarrow>
          update_files E item_id (map h annotations)
            (sort_key (\<lambda>x. natural_key (path_name x)) (map fst (files st)))
            (st\<lparr>heap := h\<rparr>))"

subsection \<open>Reading the model\<close>

text \<open>The identifier column of a table (empty when there is none), whether a table
  holds an item, and the paths that a sequence of events writes to.\<close>

definition table_ids :: "table \<Rightarrow> cell list" where
  "table_ids t = (case table_column t ''id'' of Inr ids \<Rightarrow> ids | Inl e \<Rightarrow> [])"

definition holds_item :: "string \<Rightarrow> table \<Rightarrow> bool" where
  "holds_item item_id t = (Py (PyStr item_id) \<in> set (table_ids t))"

fun written_paths :: "fs_event list \<Rightarrow> path list" where
  "written_paths [] = []"
| "written_paths (ReadTable p # es) = written_paths es"
| "written_paths (WriteTable p t # es) = p # written_paths es"

text \<open>What the migration of lines 329 to 354 does to one cell of the column of a field
  of the updated schema, given the names in \<open>fields_to_update\<close>: the image upgrade and
  then the annotation-list upgrade, each when its condition holds.\<close>

definition upgrade_cell :: "env \<Rightarrow> string list \<Rightarrow> field \<Rightarrow> cell \<Rightarrow> py_error + cell" where
  "upgrade_cell E upd f c =
     then_do (if is_image_type E (ftype f) \<and> name f \<in> set upd
              then upgrade_image E c else Inr c) (\<lambda>c1.
       if is_list_of_object_annotation_type E (ftype f) \<and> name f \<in> set upd
       then upgrade_objects E c1 else Inr c1)"

subsection \<open>A concrete dataset\<close>

text \<open>An environment for the concrete examples: the byte codec and the library
  functions above, extension types for the annotations and the images with the type
  predicates that hold of them, dictionary conversions that carry the image address and
  the annotation identifiers, and array builders that accept the cells of their kind
  and give them back.\<close>

definition example_annotation_type :: pa_type where
  "example_annotation_type =
     ExtensionType ''ObjectAnnotation''
       (StructType [(''id'', Primitive ''string''), (''view_id'', Primitive ''string'')])"

definition example_image_type :: pa_type where
  "example_image_type = ExtensionType ''Image'' (StructType [(''uri'', Primitive ''string'')])"

definition is_objects_cell :: "cell \<Rightarrow> bool" where
  "is_objects_cell c = (case c of Objects _ \<Rightarrow> True | _ \<Rightarrow> False)"

definition is_image_cell :: "cell \<Rightarrow> bool" where
  "is_image_cell c = (case c of Img _ \<Rightarrow> True | _ \<Rightarrow> False)"

definition example_env :: env where
  "example_env =
     \<lparr>mask_codec = byte_codec,
      pyarrow_lib = example_pyarrow,
      ObjectAnnotationType = example_annotation_type,
      ImageType = example_image_type,
      is_image_type = (\<lambda>t. t = example_image_type),
      is_list_of_object_annotation_type = (\<lambda>t. t = ListType example_annotation_type),
      image_to_dict = (\<lambda>i. [(''uri'', PyStr (uri i))]),
      image_from_dict = (\<lambda>d. case map_of d ''uri'' of
                              Some (PyStr u) \<Rightarrow>
                                Inr \<lparr>uri = u, bytes = None, preview_bytes = None, uri_prefix = None\<rparr>
                            | _ \<Rightarrow> Inl KeyError),
      annotation_to_dict = (\<lambda>a. [(''id'', PyStr (ann_id a)), (''view_id'', PyStr (view_id a)),
                                 (''bbox'', PyNone)]),
      annotation_from_dict = (\<lambda>d. case (map_of d ''id'', map_of d ''view_id'') of
                                   (Some (PyStr i), Some (PyStr v)) \<Rightarrow>
                                     Inr (annotation0\<lparr>ann_id := i, view_id := v,
                                            mask_source := Some '''', bbox_source := Some ''''\<rparr>)
                                 | _ \<Rightarrow> Inl KeyError),
      objects_from_lists = (\<lambda>col. if list_all is_objects_cell col then Inr col
                                  else Inl ArrowInvalid),
      images_from_list = (\<lambda>col. if list_all is_image_cell col then Inr col
                                else Inl ArrowInvalid)\<rparr>"

text \<open>Two shards. The second holds \<open>img_7\<close> and \<open>img_10\<close>, each with an empty annotation
  list; the first holds \<open>img_1\<close>.\<close>

definition id_field :: field where
  "id_field = \<lparr>name = ''id'', ftype = Primitive ''string''\<rparr>"

definition objects_field :: field where
  "objects_field = \<lparr>name = ''objects'', ftype = ListType example_annotation_type\<rparr>"

definition shard_0 :: table where
  "shard_0 = [(id_field, [Py (PyStr ''img_1'')]), (objects_field, [Objects []])]"

definition shard_1 :: table where
  "shard_1 = [(id_field, [Py (PyStr ''img_7''), Py (PyStr ''img_10'')]),
              (objects_field, [Objects [], Objects [Instance annotation0]])]"

text \<open>The annotation that the caller passes: a two by two mask in the interchange form
  whose foreground is the right column, and an all-zero bounding box.\<close>

definition urle_annotation :: ObjectAnnotation where
  "urle_annotation =
     annotation0\<lparr>mask := Some \<lparr>size_hw = [2, 2], counts = Runs [1, 1, 1, 1]\<rparr>,
                 bbox := Some \<lparr>coords = [0, 0, 0, 0], format = ''xywh'',
                               is_normalized = Some False, confidence = None\<rparr>\<rparr>"

definition example_store :: store where
  "example_store =
     \<lparr>heap = (\<lambda>r. urle_annotation),
      files = [(''db/shard_1.parquet'', shard_1), (''db/shard_0.parquet'', shard_0)],
      events = []\<rparr>"

text \<open>A shard in which two rows carry the identifier \<open>img_7\<close>, and a dataset with this
  one shard.\<close>

definition shard_twice :: table where
  "shard_twice = [(id_field, [Py (PyStr ''img_7''), Py (PyStr ''img_7''), Py (PyStr ''img_10'')]),
                  (objects_field, [Objects [], Objects [], Objects []])]"

definition store_twice :: store where
  "store_twice =
     \<lparr>heap = (\<lambda>r. urle_annotation), files = [(''db/shard_0.parquet'', shard_twice)],
      events = []\<rparr>"

text \<open>A shard with a column of string lists in which the row of \<open>img_10\<close> holds no list
  (\<open>None\<close>), and a dataset with this one shard.\<close>

definition tags_field :: field where
  "tags_field = \<lparr>name = ''tags'', ftype = ListType (Primitive ''string'')\<rparr>"

definition shard_tags :: table where
  "shard_tags = [(id_field, [Py (PyStr ''img_7''), Py (PyStr ''img_10'')]),
                 (objects_field, [Objects [], Objects []]),
                 (tags_field, [Py (PyList [PyStr ''a'']), Py PyNone])]"

definition store_tags :: store where
  "store_tags =
     \<lparr>heap = (\<lambda>r. urle_annotation), files = [(''db/shard_0.parquet'', shard_tags)],
      events = []\<rparr>"

section \<open>Properties of the bounding-box operations\<close>

lemma foreground_iff:
  "(i, j) \<in> set (foreground m) \<longleftrightarrow> i < length m \<and> j < length (m ! i) \<and> m ! i ! j"
  by (auto simp: foreground_def)

lemma foreground_bounds:
  assumes "(i0, j0) \<in> set (foreground m)"
  shows "Min (set (map snd (foreground m))) \<le> j0" "j0 \<le> Max (set (map snd (foreground m)))"
        "Min (set (map fst (foreground m))) \<le> i0" "i0 \<le> Max (set (map fst (foreground m)))"
proof -
  have j: "j0 \<in> set (map snd (foreground m))" and i: "i0 \<in> set (map fst (foreground m))"
    using assms by force+
  show "Min (set (map snd (foreground m))) \<le> j0" using j by (intro Min_le) auto
  show "j0 \<le> Max (set (map snd (foreground m)))" using j by (intro Max_ge) auto
  show "Min (set (map fst (foreground m))) \<le> i0" using i by (intro Min_le) auto
  show "i0 \<le> Max (set (map fst (foreground m)))" using i by (intro Max_ge) auto
qed

lemma foreground_extremes_attained:
  assumes "foreground m \<noteq> []"
  shows "\<exists>i. (i, Min (set (map snd (foreground m)))) \<in> set (foreground m)"
        "\<exists>i. (i, Max (set (map snd (foreground m)))) \<in> set (foreground m)"
        "\<exists>j. (Min (set (map fst (foreground m))), j) \<in> set (foreground m)"
        "\<exists>j. (Max (set (map fst (foreground m))), j) \<in> set (foreground m)"
proof -
  let ?ps = "foreground m"
  have ne: "set (map snd ?ps) \<noteq> {}" "set (map fst ?ps) \<noteq> {}" using assms by auto
  have "Min (set (map snd ?ps)) \<in> set (map snd ?ps)" using ne by (intro Min_in) auto
  then show "\<exists>i. (i, Min (set (map snd ?ps))) \<in> set ?ps" by force
  have "Max (set (map snd ?ps)) \<in> set (map snd ?ps)" using ne by (intro Max_in) auto
  then show "\<exists>i. (i, Max (set (map snd ?ps))) \<in> set ?ps" by force
  have "Min (set (map fst ?ps)) \<in> set (map fst ?ps)" using ne by (intro Min_in) auto
  then show "\<exists>j. (Min (set (map fst ?ps)), j) \<in> set ?ps" by force
  have "Max (set (map fst ?ps)) \<in> set (map fst ?ps)" using ne by (intro Max_in) auto
  then show "\<exists>j. (Max (set (map fst ?ps)), j) \<in> set ?ps" by force
qed

lemma mask_shape_rows:
  assumes "\<forall>row \<in> set m. length row = width" and "m \<noteq> []"
  shows "mask_shape m = (length m, width)"
  using assms by (cases m) (auto simp: mask_shape_def)

text \<open>
  Claim C5 as stated asks for a box that is not normalised. \<open>from_mask\<close> builds its box
  through \<open>from_xywh\<close>, which leaves \<open>is_normalized\<close> at the constructor's default
  \<open>True\<close>: already for the one-pixel mask the flag of the result is \<open>True\<close>, not \<open>False\<close>.
\<close>

theorem from_mask_is_normalized_counterexample:
  "map_sum id is_normalized (from_mask [[True]]) = Inr (Some True)
   \<and> map_sum id is_normalized (from_mask [[True]]) \<noteq> Inr (Some False)"
  by (simp add: from_mask_def mask_to_bbox_def foreground_def then_do_def from_xywh_def
      BBox_init_def Let_def)

text \<open>
  Claim C5, amended: for every mask of some height and width (every row has the width
  as its length) with at least one foreground pixel, \<open>from_mask\<close> returns a box in
  \<open>xywh\<close> format that is flagged normalized (\<open>is_normalized = True\<close>), has no confidence,
  and holds the tight bounding rectangle of the foreground as fractions of the mask's
  width and height: its coordinates are \<open>[x/width, y/height, w/width, h/height]\<close>, where
  every foreground pixel lies in columns \<open>x \<dots> x+w-1\<close> and rows \<open>y \<dots> y+h-1\<close>, the first
  and last of these columns and rows each hold a foreground pixel, and the rectangle
  lies within the mask, so that every coordinate is between 0 and 1.
\<close>

theorem from_mask_tight_rectangle:
  assumes "\<forall>row \<in> set m. length row = width"
    and "i0 < length m" "j0 < length (m ! i0)" "m ! i0 ! j0"
  shows "\<exists>x y w h.
           from_mask m = Inr \<lparr>coords = [real x / real width, real y / real (length m),
                                        real w / real width, real h / real (length m)],
                              format = ''xywh'', is_normalized = Some True, confidence = None\<rparr>
         \<and> x + w \<le> width \<and> y + h \<le> length m
         \<and> (\<forall>i j. i < length m \<and> j < length (m ! i) \<and> m ! i ! j
                \<longrightarrow> x \<le> j \<and> j < x + w \<and> y \<le> i \<and> i < y + h)
         \<and> (\<exists>i. i < length m \<and> x < length (m ! i) \<and> m ! i ! x)
         \<and> (\<exists>i. i < length m \<and> x + w - 1 < length (m ! i) \<and> m ! i ! (x + w - 1))
         \<and> (\<exists>j. y < length m \<and> j < length (m ! y) \<and> m ! y ! j)
         \<and> (\<exists>j. y + h - 1 < length m \<and> j < length (m ! (y + h - 1)) \<and> m ! (y + h - 1) ! j)"
proof -
  let ?ps = "foreground m"
  let ?cmin = "Min (set (map snd ?ps))" and ?cmax = "Max (set (map snd ?ps))"
  let ?rmin = "Min (set (map fst ?ps))" and ?rmax = "Max (set (map fst ?ps))"
  have mem: "(i0, j0) \<in> set ?ps" using assms(2-4) by (simp add: foreground_iff)
  then have ne: "?ps \<noteq> []" by auto
  have "m \<noteq> []" using assms(2) by auto
  then have shape: "mask_shape m = (length m, width)" using assms(1) by (intro mask_shape_rows)
  have c: "?cmin \<le> ?cmax" and r: "?rmin \<le> ?rmax"
    using foreground_bounds[OF mem] by linarith+
  have val: "from_mask m =
      Inr \<lparr>coords = [real ?cmin / real width, real ?rmin / real (length m),
                     real (?cmax - ?cmin + 1) / real width,
                     real (?rmax - ?rmin + 1) / real (length m)],
           format = ''xywh'', is_normalized = Some True, confidence = None\<rparr>"
    using ne shape
    by (simp add: from_mask_def mask_to_bbox_def then_do_def from_xywh_def BBox_init_def Let_def)
  have cover: "\<forall>i j. i < length m \<and> j < length (m ! i) \<and> m ! i ! j
       \<longrightarrow> ?cmin \<le> j \<and> j < ?cmin + (?cmax - ?cmin + 1)
           \<and> ?rmin \<le> i \<and> i < ?rmin + (?rmax - ?rmin + 1)"
  proof (intro allI impI)
    fix i j assume "i < length m \<and> j < length (m ! i) \<and> m ! i ! j"
    then have "(i, j) \<in> set ?ps" by (simp add: foreground_iff)
    from foreground_bounds[OF this]
    show "?cmin \<le> j \<and> j < ?cmin + (?cmax - ?cmin + 1)
          \<and> ?rmin \<le> i \<and> i < ?rmin + (?rmax - ?rmin + 1)"
      by linarith
  qed
  have e1: "?cmin + (?cmax - ?cmin + 1) - 1 = ?cmax" using c by simp
  have e2: "?rmin + (?rmax - ?rmin + 1) - 1 = ?rmax" using r by simp
  from foreground_extremes_attained(2)[OF ne] obtain i where
    "i < length m" "?cmax < length (m ! i)" by (auto simp: foreground_iff)
  then have "?cmax < width" using assms(1) by (metis nth_mem)
  then have inw: "?cmin + (?cmax - ?cmin + 1) \<le> width" using c by simp
  from foreground_extremes_attained(4)[OF ne] have "?rmax < length m"
    by (auto simp: foreground_iff)
  then have inh: "?rmin + (?rmax - ?rmin + 1) \<le> length m" using r by simp
  show ?thesis
    apply (rule exI[of _ ?cmin], rule exI[of _ ?rmin])
    apply (rule exI[of _ "?cmax - ?cmin + 1"], rule exI[of _ "?rmax - ?rmin + 1"])
    apply (intro conjI)
           apply (rule val)
          apply (rule inw)
         apply (rule inh)
        apply (rule cover)
    using foreground_extremes_attained[OF ne] apply (simp_all only: e1 e2 foreground_iff)
    done
qed

theorem from_mask_tight_rectangle_witness:
  "\<exists>x y w h.
     from_mask [[False, True], [True, True]] =
       Inr \<lparr>coords = [real x / 2, real y / 2, real w / 2, real h / 2], format = ''xywh'',
            is_normalized = Some True, confidence = None\<rparr>
     \<and> x + w \<le> 2 \<and> y + h \<le> 2"
proof -
  have "\<forall>row \<in> set [[False, True], [True, True]]. length row = 2" by simp
  from from_mask_tight_rectangle[OF this, of 0 1] show ?thesis by auto
qed

text \<open>
  Claim C6 as stated covers every format and every confidence. A box in \<open>xyxy\<close> format
  comes back in \<open>xywh\<close> format, and a confidence is not carried over by \<open>to_xyxy\<close>.
\<close>

theorem to_xywh_to_xyxy_counterexample:
  "then_do (to_xyxy \<lparr>coords = [0, 0, 1, 1::real], format = ''xyxy'',
                     is_normalized = Some True, confidence = None\<rparr>) to_xywh
     \<noteq> Inr \<lparr>coords = [0, 0, 1, 1::real], format = ''xyxy'',
             is_normalized = Some True, confidence = None\<rparr>
   \<and> then_do (to_xyxy \<lparr>coords = [0, 0, 1, 1::real], format = ''xywh'',
                       is_normalized = Some True, confidence = Some (1/2)\<rparr>) to_xywh
     \<noteq> Inr \<lparr>coords = [0, 0, 1, 1::real], format = ''xywh'',
             is_normalized = Some True, confidence = Some (1/2)\<rparr>"
  by (simp add: then_do_def to_xyxy_def to_xywh_def xyxy_coords_def xywh_coords_def
      BBox_init_def)

text \<open>
  Claim C6, amended: for every bounding box \<open>b\<close> in \<open>xywh\<close> format with no confidence,
  any \<open>is_normalized\<close> flag and coordinates \<open>[x, y, w, h]\<close> for which subtracting \<open>x\<close> from
  \<open>x + w\<close> gives \<open>w\<close> and subtracting \<open>y\<close> from \<open>y + h\<close> gives \<open>h\<close> (as in exact
  arithmetic), \<open>to_xywh(to_xyxy(b)) = b\<close>.
\<close>

theorem to_xywh_to_xyxy_roundtrip:
  fixes b :: "'a::{plus,minus} BBox"
  assumes "format b = ''xywh''" and "confidence b = None"
    and "coords b = [x, y, w, h]" and "(x + w) - x = w" and "(y + h) - y = h"
  shows "then_do (to_xyxy b) to_xywh = Inr b"
  using assms
  by (simp add: then_do_def to_xyxy_def to_xywh_def xyxy_coords_def xywh_coords_def
      BBox_init_def)

theorem to_xywh_to_xyxy_roundtrip_witness:
  "then_do (to_xyxy \<lparr>coords = [1, 2, 3, 4::real], format = ''xywh'',
                     is_normalized = Some False, confidence = None\<rparr>) to_xywh
     = Inr \<lparr>coords = [1, 2, 3, 4::real], format = ''xywh'',
            is_normalized = Some False, confidence = None\<rparr>"
  using to_xywh_to_xyxy_roundtrip[of "\<lparr>coords = [1, 2, 3, 4::real], format = ''xywh'',
      is_normalized = Some False, confidence = None\<rparr>" 1 2 3 4]
  by simp

section \<open>Properties of the displayed source\<close>

text \<open>
  Claim C8 as stated takes \<open>mask_source\<close> whenever it is present. An empty string is
  present and is skipped: with \<open>mask_source = ""\<close> and \<open>bbox_source = "model"\<close> the
  displayed source is \<open>"model"\<close>, not \<open>mask_source\<close>.
\<close>

theorem object_source_counterexample:
  "mask_source (annotation0\<lparr>mask_source := Some '''', bbox_source := Some ''model''\<rparr>) = Some ''''
   \<and> object_source (annotation0\<lparr>mask_source := Some '''', bbox_source := Some ''model''\<rparr>) \<noteq> ''''"
  by (simp add: annotation0_def object_source_def py_or_def)

text \<open>
  Claim C8, amended: the displayed source equals \<open>mask_source\<close> whenever \<open>mask_source\<close> is
  present and not the empty string, otherwise \<open>bbox_source\<close> whenever \<open>bbox_source\<close> is
  present and not the empty string, otherwise the literal \<open>"Ground truth"\<close>.
\<close>

theorem object_source_rule:
  "(mask_source obj = Some s \<and> s \<noteq> [] \<longrightarrow> object_source obj = s)
   \<and> ((mask_source obj = None \<or> mask_source obj = Some [])
        \<and> bbox_source obj = Some t \<and> t \<noteq> [] \<longrightarrow> object_source obj = t)
   \<and> ((mask_source obj = None \<or> mask_source obj = Some [])
        \<and> (bbox_source obj = None \<or> bbox_source obj = Some [])
        \<longrightarrow> object_source obj = ''Ground truth'')"
  by (auto simp: object_source_def py_or_def)

theorem object_source_rule_witness:
  "object_source (annotation0\<lparr>mask_source := Some ''sam''\<rparr>) = ''sam''
   \<and> object_source (annotation0\<lparr>bbox_source := Some ''yolo''\<rparr>) = ''yolo''
   \<and> object_source (annotation0\<lparr>mask_source := Some '''', bbox_source := Some ''yolo''\<rparr>) = ''yolo''
   \<and> object_source annotation0 = ''Ground truth''"
  using object_source_rule[of "annotation0\<lparr>mask_source := Some ''sam''\<rparr>" "''sam''" "''x''"]
    object_source_rule[of "annotation0\<lparr>bbox_source := Some ''yolo''\<rparr>" "''x''" "''yolo''"]
    object_source_rule[of "annotation0\<lparr>mask_source := Some '''', bbox_source := Some ''yolo''\<rparr>" "''x''" "''yolo''"]
    object_source_rule[of annotation0 "''x''" "''x''"]
  by (simp add: annotation0_def)

section \<open>Properties of the statistics file\<close>

lemma keep_other_stats_records:
  assumes "\<forall>s \<in> set ss. \<exists>kvs v. s = PyDict kvs \<and> map_of kvs ''name'' = Some v"
  shows "keep_other_stats n ss =
           Inr (filter (\<lambda>s. case s of PyDict kvs \<Rightarrow> map_of kvs ''name'' \<noteq> Some (PyStr n)
                              | _ \<Rightarrow> False) ss)"
  using assms
proof (induction ss)
  case Nil
  then show ?case by simp
next
  case (Cons s ss)
  then obtain kvs v where s: "s = PyDict kvs" "map_of kvs ''name'' = Some v" by auto
  from Cons have "keep_other_stats n ss =
           Inr (filter (\<lambda>s. case s of PyDict kvs \<Rightarrow> map_of kvs ''name'' \<noteq> Some (PyStr n)
                              | _ \<Rightarrow> False) ss)" by simp
  then show ?case using s by (auto simp: then_do_def dict_get_def)
qed

text \<open>What \<open>to_json\<close> does on a file of named records: the records with another name are
  kept, unchanged and in order, and the three-key record of \<open>self\<close> is appended.\<close>

lemma to_json_upsert:
  assumes "\<forall>s \<in> set ss. \<exists>kvs v. s = PyDict kvs \<and> map_of kvs ''name'' = Some v"
  shows "to_json self (Some (PyList ss)) =
           Inr (PyList (filter (\<lambda>s. case s of PyDict kvs \<Rightarrow>
                                        map_of kvs ''name'' \<noteq> Some (PyStr (stat_name self))
                                      | _ \<Rightarrow> False) ss
                        @ [stat_record self]))"
  by (simp add: to_json_def then_do_def keep_other_stats_records[OF assms])

text \<open>
  Claim C9 at a failing input: a statistic with \<open>range = [0, 1]\<close> is written over a file
  that holds a record of the same name with its range, next to a record of another
  name. The other record is kept, and the record written for the statistic has the keys
  \<open>name\<close>, \<open>type\<close> and \<open>histogram\<close> only: the range is gone from the file.
\<close>

theorem to_json_drops_range:
  "to_json \<lparr>stat_name = ''area'', stat_type = ''numerical'',
            histogram = [[(''bin_start'', PyInt 0), (''counts'', PyInt 3)]],
            stat_range = Some [PyInt 0, PyInt 1]\<rparr>
     (Some (PyList
        [PyDict [(''name'', PyStr ''area''), (''type'', PyStr ''numerical''),
                 (''histogram'', PyList []), (''range'', PyList [PyInt 0, PyInt 1])],
         PyDict [(''name'', PyStr ''label''), (''type'', PyStr ''categorical''),
                 (''histogram'', PyList [])]]))
   = Inr (PyList
        [PyDict [(''name'', PyStr ''label''), (''type'', PyStr ''categorical''),
                 (''histogram'', PyList [])],
         PyDict [(''name'', PyStr ''area''), (''type'', PyStr ''numerical''),
                 (''histogram'', PyList [PyDict [(''bin_start'', PyInt 0), (''counts'', PyInt 3)]])]])"
  by (simp add: to_json_def then_do_def dict_get_def stat_record_def)

section \<open>Properties of the update transaction\<close>

lemma written_paths_append: "written_paths (xs @ ys) = written_paths xs @ written_paths ys"
  by (induction xs rule: written_paths.induct) auto

lemma written_paths_mem: "WriteTable p t \<in> set es \<Longrightarrow> p \<in> set (written_paths es)"
  by (induction es rule: written_paths.induct) auto

lemma written_paths_table: "p \<in> set (written_paths es) \<Longrightarrow> \<exists>t. WriteTable p t \<in> set es"
  by (induction es rule: written_paths.induct) auto

lemma update_shard_cases:
  assumes "update_shard E i a t = Inr (Some t')"
  obtains sch upd ids where "legacy_fields E (map fst t) (map fst t, []) = Inr (sch, upd)"
    and "table_column t ''id'' = Inr ids" and "Py (PyStr i) \<in> set ids"
    and "replace_row E a t (sch, upd) (map (\<lambda>c. c = Py (PyStr i)) ids) = Inr t'"
proof -
  have run1: "then_do (legacy_fields E (map fst t) (map fst t, [])) (\<lambda>leg.
     then_do (table_column t ''id'') (\<lambda>ids.
       let found = map (\<lambda>c. c = Py (PyStr i)) ids in
       if True \<notin> set found then Inr None
       else then_do (replace_row E a t leg found) (\<lambda>t'. Inr (Some t'))))
     = Inr (Some t')"
    using assms unfolding update_shard_def .
  obtain lg where lf: "legacy_fields E (map fst t) (map fst t, []) = Inr lg"
    using run1 by (cases "legacy_fields E (map fst t) (map fst t, [])") (simp_all add: then_do_def)
  obtain ids where tc: "table_column t ''id'' = Inr ids"
    using run1 lf by (cases "table_column t ''id''") (simp_all add: then_do_def)
  obtain sch upd where lg: "lg = (sch, upd)" by (cases lg)
  let ?found = "map (\<lambda>c. c = Py (PyStr i)) ids"
  have run2: "(if True \<notin> set ?found then Inr None
       else then_do (replace_row E a t lg ?found) (\<lambda>t'. Inr (Some t')))
     = Inr (Some t')"
    using run1 lf tc by (simp add: then_do_def Let_def)
  have tf: "True \<in> set ?found" using run2 by (cases "True \<in> set ?found") simp_all
  then have found: "Py (PyStr i) \<in> set ids" by auto
  have run3: "then_do (replace_row E a t lg ?found) (\<lambda>t'. Inr (Some t')) = Inr (Some t')"
    using run2 tf by simp
  have rr: "replace_row E a t (sch, upd) ?found = Inr t'"
    using run3 unfolding lg
    by (cases "replace_row E a t (sch, upd) ?found") (simp_all add: then_do_def)
  show ?thesis using that lf[unfolded lg] tc found rr .
qed

lemma build_arrays_result:
  assumes "build_arrays E fs ut = Inr arrays"
  shows "list_all2 (\<lambda>f a. \<exists>col. ut (name f) = Some col \<and> build_array E f col = Inr a) fs arrays"
  using assms
proof (induction fs arbitrary: arrays)
  case Nil
  then show ?case by simp
next
  case (Cons f fs)
  then show ?case by (auto simp: then_do_def split: option.splits sum.splits)
qed

lemma replace_row_steps:
  assumes "replace_row E a t (sch, upd) found = Inr t'"
  obtains ut1 ut2 ut3 ut4 arrays where
    "append_row sch ((first_row (table_filter found t))(''objects'' \<mapsto> Objects (map Instance a)))
       (to_pydict (table_filter (map Not found) t)) = Inr ut1"
    and "sort_fields sch ut1 = Inr ut2"
    and "sort_ids ut2 = Inr ut3"
    and "migrate_fields E upd sch ut3 = Inr ut4"
    and "build_arrays E sch ut4 = Inr arrays"
    and "table_from_arrays sch arrays = Inr t'"
proof -
  have "then_do (append_row sch ((first_row (table_filter found t))
                    (''objects'' \<mapsto> Objects (map Instance a)))
                  (to_pydict (table_filter (map Not found) t))) (\<lambda>ut1.
      then_do (sort_fields sch ut1) (\<lambda>ut2.
      then_do (sort_ids ut2) (\<lambda>ut3.
      then_do (migrate_fields E upd sch ut3) (\<lambda>ut4.
      then_do (build_arrays E sch ut4) (\<lambda>arrays.
      table_from_arrays sch arrays))))) = Inr t'"
    using assms unfolding replace_row_def Let_def fst_conv snd_conv .
  then show ?thesis using that by (auto simp: then_do_def split: sum.splits)
qed

lemma replace_row_table:
  assumes "replace_row E a t (sch, upd) found = Inr t'"
  shows "rectangular t' \<and> map fst t' = sch"
proof -
  from assms obtain ut4 arrays where ba: "build_arrays E sch ut4 = Inr arrays"
    and ta: "table_from_arrays sch arrays = Inr t'"
    by (rule replace_row_steps)
  have "length arrays = length sch"
    using build_arrays_result[OF ba] by (simp add: list_all2_lengthD)
  moreover have "t' = zip sch arrays" and "rectangular t'"
    using ta by (auto simp: table_from_arrays_def split: if_splits)
  ultimately show ?thesis by simp
qed

lemma update_shard_complete:
  assumes "update_shard E i a t = Inr (Some t')"
  shows "rectangular t'
       \<and> (\<exists>sch upd. legacy_fields E (map fst t) (map fst t, []) = Inr (sch, upd)
             \<and> map fst t' = sch)"
  using assms by (rule update_shard_cases) (use replace_row_table in blast)

lemma update_shard_Some_holds:
  assumes "update_shard E i a t = Inr (Some t')"
  shows "holds_item i t"
  using assms
  by (auto simp: update_shard_def then_do_def holds_item_def table_ids_def Let_def
      split: sum.splits if_splits)

lemma update_shard_None_not_holds:
  assumes "update_shard E i a t = Inr None"
  shows "\<not> holds_item i t"
  using assms
  by (auto simp: update_shard_def then_do_def holds_item_def table_ids_def Let_def
      split: sum.splits if_splits)

lemma map_of_write_table:
  "map_of (write_table t p fs) q = (if q = p \<and> p \<in> fst ` set fs then Some t else map_of fs q)"
  by (induction fs) (force simp: write_table_def)+

lemma paths_write_table: "map fst (write_table t p fs) = map fst fs"
  by (induction fs) (auto simp: write_table_def)

lemma normalize_annotation_frame:
  "x \<noteq> r \<Longrightarrow> snd (normalize_annotation C r h) x = h x"
  by (auto simp: normalize_annotation_def Let_def split: option.splits sum.splits)

lemma normalize_annotation_ok:
  assumes "normalize_annotation C r h = (None, h')"
  shows "\<exists>m m' b b'. mask (h r) = Some m \<and> from_urle C m = Inr m' \<and> bbox (h r) = Some b
           \<and> h' = h(r := (h r)\<lparr>mask := Some m', bbox := Some b'\<rparr>)
           \<and> (coords b \<noteq> [0, 0, 0, 0] \<longrightarrow> b' = b)
           \<and> (coords b = [0, 0, 0, 0] \<longrightarrow> then_do (to_mask C m') from_mask = Inr b')"
  using assms
  apply (auto simp: normalize_annotation_def Let_def split: option.splits sum.splits if_splits)
  done

lemma update_files_heap: "heap (snd (update_files E i a ps st)) = heap st"
  by (induction ps arbitrary: st) (auto simp: Let_def split: sum.splits option.splits)

lemma update_files_paths: "map fst (files (snd (update_files E i a ps st))) = map fst (files st)"
  by (induction ps arbitrary: st) (auto simp: Let_def paths_write_table split: sum.splits option.splits)

lemma read_table_Inr: "read_table fs p = Inr t \<Longrightarrow> map_of fs p = Some t \<and> rectangular t"
  by (auto simp: read_table_def split: option.splits if_splits)

lemma step_cases:
  obtains (err) e where "then_do (read_table fs p) (update_shard E i a) = Inl e"
  | (absent) t where "then_do (read_table fs p) (update_shard E i a) = Inr None"
      "map_of fs p = Some t" "rectangular t" "update_shard E i a t = Inr None"
  | (present) t t' where "then_do (read_table fs p) (update_shard E i a) = Inr (Some t')"
      "map_of fs p = Some t" "rectangular t" "update_shard E i a t = Inr (Some t')"
proof (cases "read_table fs p")
  case (Inl e)
  then show ?thesis using err by (simp add: then_do_def)
next
  case (Inr t)
  note rt = read_table_Inr[OF Inr]
  show ?thesis
  proof (cases "update_shard E i a t")
    case (Inl e)
    then show ?thesis using err Inr by (simp add: then_do_def)
  next
    case r: (Inr o')
    show ?thesis
    proof (cases o')
      case None
      then show ?thesis using absent[of t] Inr r rt by (simp add: then_do_def)
    next
      case (Some t')
      then show ?thesis using present[of t' t] Inr r rt by (simp add: then_do_def)
    qed
  qed
qed

lemma update_files_writes:
  assumes "distinct ps" and "fst (update_files E i a ps st) = None"
  shows "written_paths (events (snd (update_files E i a ps st)))
           = written_paths (events st) @ [p \<leftarrow> ps. holds_item i (the (map_of (files st) p))]
         \<and> (\<forall>q. q \<notin> set [p \<leftarrow> ps. holds_item i (the (map_of (files st) p))]
                \<longrightarrow> map_of (files (snd (update_files E i a ps st))) q = map_of (files st) q)"
  using assms
proof (induction ps arbitrary: st)
  case Nil
  then show ?case by simp
next
  case (Cons fp rest)
  let ?st1 = "st\<lparr>events := events st @ [ReadTable fp]\<rparr>"
  show ?case
  proof (cases rule: step_cases[of "files st" fp E i a])
    case (err e)
    then show ?thesis using Cons.prems by (simp add: Let_def)
  next
    case (absent t)
    have eq: "update_files E i a (fp # rest) st = update_files E i a rest ?st1"
      using absent by (simp add: Let_def)
    have nh: "\<not> holds_item i t" using absent(4) by (rule update_shard_None_not_holds)
    have ih: "written_paths (events (snd (update_files E i a rest ?st1)))
           = written_paths (events ?st1) @ [p \<leftarrow> rest. holds_item i (the (map_of (files ?st1) p))]
         \<and> (\<forall>q. q \<notin> set [p \<leftarrow> rest. holds_item i (the (map_of (files ?st1) p))]
                \<longrightarrow> map_of (files (snd (update_files E i a rest ?st1))) q = map_of (files ?st1) q)"
    proof (rule Cons.IH)
      show "distinct rest" using Cons.prems(1) by simp
      show "fst (update_files E i a rest ?st1) = None" using Cons.prems(2) unfolding eq .
    qed
    show ?thesis unfolding eq using ih nh absent(2) by (simp add: written_paths_append)
  next
    case (present t t')
    let ?st2 = "?st1\<lparr>files := write_table t' fp (files ?st1),
                       events := events ?st1 @ [WriteTable fp t']\<rparr>"
    have eq: "update_files E i a (fp # rest) st = update_files E i a rest ?st2"
      using present by (simp add: Let_def)
    have h: "holds_item i t" using present(4) by (rule update_shard_Some_holds)
    have ih: "written_paths (events (snd (update_files E i a rest ?st2)))
           = written_paths (events ?st2) @ [p \<leftarrow> rest. holds_item i (the (map_of (files ?st2) p))]
         \<and> (\<forall>q. q \<notin> set [p \<leftarrow> rest. holds_item i (the (map_of (files ?st2) p))]
                \<longrightarrow> map_of (files (snd (update_files E i a rest ?st2))) q = map_of (files ?st2) q)"
    proof (rule Cons.IH)
      show "distinct rest" using Cons.prems(1) by simp
      show "fst (update_files E i a rest ?st2) = None" using Cons.prems(2) unfolding eq .
    qed
    have same: "[p \<leftarrow> rest. holds_item i (the (map_of (files ?st2) p))]
                = [p \<leftarrow> rest. holds_item i (the (map_of (files st) p))]"
      using Cons.prems(1) by (intro filter_cong) (auto simp: map_of_write_table)
    show ?thesis unfolding eq using ih h present(2) unfolding same
      by (auto simp: written_paths_append map_of_write_table)
  qed
qed

lemma update_files_rewrites:
  assumes "distinct ps"
  shows "\<exists>new. events (snd (update_files E i a ps st)) = events st @ new
      \<and> set (written_paths new) \<subseteq> set ps
      \<and> distinct (written_paths new)
      \<and> (\<forall>p T'. WriteTable p T' \<in> set new \<longrightarrow>
             (\<exists>t. map_of (files st) p = Some t \<and> update_shard E i a t = Inr (Some T'))
           \<and> map_of (files (snd (update_files E i a ps st))) p = Some T')
      \<and> (\<forall>q. q \<notin> set (written_paths new)
             \<longrightarrow> map_of (files (snd (update_files E i a ps st))) q = map_of (files st) q)"
  using assms
proof (induction ps arbitrary: st)
  case Nil
  show ?case by simp
next
  case (Cons fp rest)
  have dr: "distinct rest" and nfp: "fp \<notin> set rest" using Cons.prems by auto
  let ?st1 = "st\<lparr>events := events st @ [ReadTable fp]\<rparr>"
  show ?case
  proof (cases rule: step_cases[of "files st" fp E i a])
    case (err e)
    then show ?thesis by (simp add: Let_def)
  next
    case (absent t)
    have eq: "update_files E i a (fp # rest) st = update_files E i a rest ?st1"
      using absent by (simp add: Let_def)
    from Cons.IH[OF dr, of ?st1] obtain new where
      "events (snd (update_files E i a rest ?st1)) = events ?st1 @ new"
      "set (written_paths new) \<subseteq> set rest"
      "distinct (written_paths new)"
      "\<forall>p T'. WriteTable p T' \<in> set new \<longrightarrow>
             (\<exists>t. map_of (files ?st1) p = Some t \<and> update_shard E i a t = Inr (Some T'))
           \<and> map_of (files (snd (update_files E i a rest ?st1))) p = Some T'"
      "\<forall>q. q \<notin> set (written_paths new)
             \<longrightarrow> map_of (files (snd (update_files E i a rest ?st1))) q = map_of (files ?st1) q"
      by blast
    then show ?thesis unfolding eq
      by (intro exI[of _ "ReadTable fp # new"]) auto
  next
    case (present t t')
    let ?st2 = "?st1\<lparr>files := write_table t' fp (files ?st1),
                       events := events ?st1 @ [WriteTable fp t']\<rparr>"
    let ?fin = "snd (update_files E i a rest ?st2)"
    have eq: "update_files E i a (fp # rest) st = update_files E i a rest ?st2"
      using present by (simp add: Let_def)
    have mem: "fp \<in> fst ` set (files st)" using present(2) by (metis map_of_SomeD fst_conv image_eqI)
    from Cons.IH[OF dr, of ?st2] obtain new where
      ev: "events ?fin = events ?st2 @ new"
      and sub: "set (written_paths new) \<subseteq> set rest"
      and dw: "distinct (written_paths new)"
      and wr: "\<forall>p T'. WriteTable p T' \<in> set new \<longrightarrow>
             (\<exists>t. map_of (files ?st2) p = Some t \<and> update_shard E i a t = Inr (Some T'))
           \<and> map_of (files ?fin) p = Some T'"
      and fr: "\<forall>q. q \<notin> set (written_paths new)
             \<longrightarrow> map_of (files ?fin) q = map_of (files ?st2) q"
      by blast
    have fpn: "fp \<notin> set (written_paths new)" using sub nfp by auto
    have at_fp: "map_of (files ?fin) fp = Some t'"
      using fr fpn mem by (simp add: map_of_write_table)
    have other: "map_of (files ?st2) q = map_of (files st) q" if "q \<noteq> fp" for q
      using that by (simp add: map_of_write_table)
    let ?new = "ReadTable fp # WriteTable fp t' # new"
    have A: "events ?fin = events st @ ?new" using ev by simp
    have B: "set (written_paths ?new) \<subseteq> set (fp # rest)" using sub by auto
    have C: "distinct (written_paths ?new)" using dw fpn by simp
    have D: "\<forall>p T'. WriteTable p T' \<in> set ?new \<longrightarrow>
             (\<exists>t. map_of (files st) p = Some t \<and> update_shard E i a t = Inr (Some T'))
           \<and> map_of (files ?fin) p = Some T'"
    proof (intro allI impI)
      fix p T' assume "WriteTable p T' \<in> set ?new"
      then consider "p = fp" "T' = t'" | "WriteTable p T' \<in> set new" by auto
      then show "(\<exists>t. map_of (files st) p = Some t \<and> update_shard E i a t = Inr (Some T'))
           \<and> map_of (files ?fin) p = Some T'"
      proof cases
        case 1
        then show ?thesis using present(2,4) at_fp by simp
      next
        case 2
        then have "p \<in> set (written_paths new)" by (rule written_paths_mem)
        then have ne: "p \<noteq> fp" using fpn by auto
        from wr 2 obtain t where m: "map_of (files ?st2) p = Some t"
          and u: "update_shard E i a t = Inr (Some T')"
          and f: "map_of (files ?fin) p = Some T'" by blast
        have "map_of (files st) p = Some t" using m unfolding other[OF ne] .
        then show ?thesis using u f by blast
      qed
    qed
    have F: "\<forall>q. q \<notin> set (written_paths ?new)
             \<longrightarrow> map_of (files ?fin) q = map_of (files st) q"
      using fr other by simp
    show ?thesis unfolding eq using A B C D F by blast
  qed
qed

text \<open>
  Claim C2, amended: every shard rewrite of the update transaction is one
  \<open>pq.write_table\<close> onto the path of the shard itself: the table written to a path is the
  complete new table (one column for each field of the updated schema, all of one
  length) that the loop body has built from the table read from that path, which holds
  the item; no path is written twice, and after the call the path holds that new table.
  The only file operations are reads and these writes, there is no temporary file and
  no rename. The set of files is the same after the call, and every file that is not
  written holds what it held before, also when the call ends with an exception.
\<close>

theorem shard_rewrite_in_place:
  assumes "distinct (map fst (files st))"
  shows "\<exists>new. events (snd (save_item_annotations E item_id annotations st)) = events st @ new
      \<and> map fst (files (snd (save_item_annotations E item_id annotations st))) = map fst (files st)
      \<and> distinct (written_paths new)
      \<and> (\<forall>p T'. WriteTable p T' \<in> set new \<longrightarrow>
             (\<exists>t. map_of (files st) p = Some t \<and> holds_item item_id t
                \<and> update_shard E item_id
                      (map (heap (snd (save_item_annotations E item_id annotations st))) annotations) t
                    = Inr (Some T')
                \<and> (\<exists>sch upd. legacy_fields E (map fst t) (map fst t, []) = Inr (sch, upd)
                       \<and> map fst T' = sch))
           \<and> rectangular T'
           \<and> map_of (files (snd (save_item_annotations E item_id annotations st))) p = Some T')
      \<and> (\<forall>q. q \<notin> set (written_paths new)
             \<longrightarrow> map_of (files (snd (save_item_annotations E item_id annotations st))) q
                 = map_of (files st) q)"
proof (cases "normalize_annotations (mask_codec E) annotations (heap st)")
  case (Pair err h)
  show ?thesis
  proof (cases err)
    case (Some e)
    then show ?thesis using Pair by (simp add: save_item_annotations_def)
  next
    case None
    let ?ps = "sort_key (\<lambda>x. natural_key (path_name x)) (map fst (files st))"
    let ?st = "st\<lparr>heap := h\<rparr>"
    let ?a = "map h annotations"
    let ?fin = "snd (update_files E item_id ?a ?ps ?st)"
    have eq: "save_item_annotations E item_id annotations st = update_files E item_id ?a ?ps ?st"
      using Pair None by (simp add: save_item_annotations_def)
    have hp: "heap ?fin = h" by (simp add: update_files_heap)
    have dps: "distinct ?ps" using assms by simp
    from update_files_rewrites[OF dps, of E item_id ?a ?st] obtain new where
      ev: "events ?fin = events ?st @ new"
      and dw: "distinct (written_paths new)"
      and wr: "\<forall>p T'. WriteTable p T' \<in> set new \<longrightarrow>
             (\<exists>t. map_of (files ?st) p = Some t \<and> update_shard E item_id ?a t = Inr (Some T'))
           \<and> map_of (files ?fin) p = Some T'"
      and fr: "\<forall>q. q \<notin> set (written_paths new)
             \<longrightarrow> map_of (files ?fin) q = map_of (files ?st) q"
      by blast
    have D: "\<forall>p T'. WriteTable p T' \<in> set new \<longrightarrow>
             (\<exists>t. map_of (files st) p = Some t \<and> holds_item item_id t
                \<and> update_shard E item_id (map (heap ?fin) annotations) t = Inr (Some T')
                \<and> (\<exists>sch upd. legacy_fields E (map fst t) (map fst t, []) = Inr (sch, upd)
                       \<and> map fst T' = sch))
           \<and> rectangular T'
           \<and> map_of (files ?fin) p = Some T'"
    proof (intro allI impI)
      fix p T' assume "WriteTable p T' \<in> set new"
      with wr obtain t where t: "map_of (files st) p = Some t"
        and u: "update_shard E item_id ?a t = Inr (Some T')"
        and f: "map_of (files ?fin) p = Some T'" by auto
      note c = update_shard_complete[OF u]
      show "(\<exists>t. map_of (files st) p = Some t \<and> holds_item item_id t
                \<and> update_shard E item_id (map (heap ?fin) annotations) t = Inr (Some T')
                \<and> (\<exists>sch upd. legacy_fields E (map fst t) (map fst t, []) = Inr (sch, upd)
                       \<and> map fst T' = sch))
           \<and> rectangular T'
           \<and> map_of (files ?fin) p = Some T'"
        unfolding hp using t u f c update_shard_Some_holds[OF u] by blast
    qed
    show ?thesis unfolding eq
      apply (rule exI[of _ new])
      apply (intro conjI)
          apply (use ev in simp)
         apply (simp add: update_files_paths)
        apply (rule dw)
       apply (rule D)
      apply (use fr in simp)
      done
  qed
qed

lemma update_files_rewritten:
  assumes "distinct ps" and "fst (update_files E i a ps st) = None"
    and "p \<in> set ps" and "map_of (files st) p = Some t" and "holds_item i t"
  shows "\<exists>t'. update_shard E i a t = Inr (Some t')
            \<and> map_of (files (snd (update_files E i a ps st))) p = Some t'"
proof -
  let ?fin = "snd (update_files E i a ps st)"
  from update_files_rewrites[OF assms(1), of E i a st] obtain new where
    ev: "events ?fin = events st @ new"
    and wr: "\<forall>p T'. WriteTable p T' \<in> set new \<longrightarrow>
             (\<exists>t. map_of (files st) p = Some t \<and> update_shard E i a t = Inr (Some T'))
           \<and> map_of (files ?fin) p = Some T'"
    by blast
  have "written_paths (events ?fin)
          = written_paths (events st) @ [p \<leftarrow> ps. holds_item i (the (map_of (files st) p))]"
    using update_files_writes[OF assms(1,2)] by simp
  then have "written_paths new = [p \<leftarrow> ps. holds_item i (the (map_of (files st) p))]"
    unfolding ev by (simp add: written_paths_append)
  then have "p \<in> set (written_paths new)" using assms(3-5) by simp
  then obtain T' where "WriteTable p T' \<in> set new" using written_paths_table by blast
  with wr obtain u where "map_of (files st) p = Some u" "update_shard E i a u = Inr (Some T')"
    "map_of (files ?fin) p = Some T'" by blast
  then show ?thesis using assms(4) by auto
qed

lemma example_events:
  "events (snd (save_item_annotations example_env ''img_7'' [0] example_store))
     = [ReadTable ''db/shard_0.parquet'', ReadTable ''db/shard_1.parquet'',
        WriteTable ''db/shard_1.parquet''
          [(id_field, [Py (PyStr ''img_7''), Py (PyStr ''img_10'')]),
           (objects_field,
            [Objects [Instance (urle_annotation\<lparr>
                mask := Some \<lparr>size_hw = [2, 2], counts = Packed [1, 1, 1, 1]\<rparr>,
                bbox := Some \<lparr>coords = [1 / 2, 0, 1 / 2, 1], format = ''xywh'',
                              is_normalized = Some True, confidence = None\<rparr>\<rparr>)],
             Objects [Instance annotation0]])]]"
  by code_simp

lemma update_files_absent:
  assumes "\<forall>t \<in> snd ` set (files st). \<not> holds_item i t"
  shows "files (snd (update_files E i a ps st)) = files st
         \<and> written_paths (events (snd (update_files E i a ps st))) = written_paths (events st)"
  using assms
proof (induction ps arbitrary: st)
  case Nil
  show ?case by simp
next
  case (Cons fp rest)
  let ?st1 = "st\<lparr>events := events st @ [ReadTable fp]\<rparr>"
  show ?case
  proof (cases rule: step_cases[of "files st" fp E i a])
    case (err e)
    then show ?thesis by (simp add: Let_def written_paths_append)
  next
    case (absent t)
    have eq: "update_files E i a (fp # rest) st = update_files E i a rest ?st1"
      using absent by (simp add: Let_def)
    show ?thesis unfolding eq using Cons.IH[of ?st1] Cons.prems
      by (simp add: written_paths_append)
  next
    case (present t t')
    have "(fp, t) \<in> set (files st)" using present(2) by (rule map_of_SomeD)
    then have "\<not> holds_item i t" using Cons.prems by force
    then show ?thesis using update_shard_Some_holds[OF present(4)] by simp
  qed
qed

lemma normalize_annotations_ok:
  assumes "normalize_annotations C rs h = (None, h')" and "distinct rs"
  shows "(\<forall>r \<in> set rs. \<exists>m m' b b'.
            mask (h r) = Some m \<and> from_urle C m = Inr m' \<and> bbox (h r) = Some b
          \<and> h' r = (h r)\<lparr>mask := Some m', bbox := Some b'\<rparr>
          \<and> (coords b \<noteq> [0, 0, 0, 0] \<longrightarrow> b' = b)
          \<and> (coords b = [0, 0, 0, 0] \<longrightarrow> then_do (to_mask C m') from_mask = Inr b'))
       \<and> (\<forall>x. x \<notin> set rs \<longrightarrow> h' x = h x)"
  using assms
proof (induction rs arbitrary: h)
  case Nil
  then show ?case by simp
next
  case (Cons r rs)
  obtain e1 h1 where s1: "normalize_annotation C r h = (e1, h1)" by (cases "normalize_annotation C r h")
  have e1: "e1 = None" using Cons.prems(1) s1 by (cases e1) auto
  have rest: "normalize_annotations C rs h1 = (None, h')" using Cons.prems(1) s1 e1 by simp
  from normalize_annotation_ok[OF s1[unfolded e1]] obtain m m' b b' where
    one: "mask (h r) = Some m" "from_urle C m = Inr m'" "bbox (h r) = Some b"
      "h1 = h(r := (h r)\<lparr>mask := Some m', bbox := Some b'\<rparr>)"
      "coords b \<noteq> [0, 0, 0, 0] \<longrightarrow> b' = b"
      "coords b = [0, 0, 0, 0] \<longrightarrow> then_do (to_mask C m') from_mask = Inr b'"
    by blast
  have ih: "(\<forall>r \<in> set rs. \<exists>m m' b b'.
            mask (h1 r) = Some m \<and> from_urle C m = Inr m' \<and> bbox (h1 r) = Some b
          \<and> h' r = (h1 r)\<lparr>mask := Some m', bbox := Some b'\<rparr>
          \<and> (coords b \<noteq> [0, 0, 0, 0] \<longrightarrow> b' = b)
          \<and> (coords b = [0, 0, 0, 0] \<longrightarrow> then_do (to_mask C m') from_mask = Inr b'))
       \<and> (\<forall>x. x \<notin> set rs \<longrightarrow> h' x = h1 x)"
    using Cons.IH[OF rest] Cons.prems(2) by simp
  have r_notin: "r \<notin> set rs" using Cons.prems(2) by simp
  have hr: "h' r = (h r)\<lparr>mask := Some m', bbox := Some b'\<rparr>"
    using ih r_notin one(4) by simp
  have others: "\<And>x. x \<in> set rs \<Longrightarrow> h1 x = h x" using one(4) r_notin by auto
  show ?case
  proof (intro conjI ballI allI impI)
    fix x assume "x \<in> set (r # rs)"
    then consider "x = r" | "x \<in> set rs" by auto
    then show "\<exists>m m' b b'.
            mask (h x) = Some m \<and> from_urle C m = Inr m' \<and> bbox (h x) = Some b
          \<and> h' x = (h x)\<lparr>mask := Some m', bbox := Some b'\<rparr>
          \<and> (coords b \<noteq> [0, 0, 0, 0] \<longrightarrow> b' = b)
          \<and> (coords b = [0, 0, 0, 0] \<longrightarrow> then_do (to_mask C m') from_mask = Inr b')"
    proof cases
      case 1
      then show ?thesis using one hr by blast
    next
      case 2
      from ih 2 have "\<exists>m m' b b'.
            mask (h1 x) = Some m \<and> from_urle C m = Inr m' \<and> bbox (h1 x) = Some b
          \<and> h' x = (h1 x)\<lparr>mask := Some m', bbox := Some b'\<rparr>
          \<and> (coords b \<noteq> [0, 0, 0, 0] \<longrightarrow> b' = b)
          \<and> (coords b = [0, 0, 0, 0] \<longrightarrow> then_do (to_mask C m') from_mask = Inr b')"
        by blast
      then show ?thesis unfolding others[OF 2] .
    qed
  next
    fix x assume "x \<notin> set (r # rs)"
    then show "h' x = h x" using ih one(4) by simp
  qed
qed

text \<open>
  Claim C10: when the first loop of \<open>save_item_annotations\<close> raises no exception, every
  annotation object of the caller's list (each object listed once) has been changed in
  place, whatever the files hold: its mask is now the compressed form \<open>from_urle\<close> of
  the mask it had, and its bounding box, if the coordinates were all zero, is now
  \<open>from_mask\<close> of the decoded mask, and is the box it had otherwise. When no shard holds
  the item, this is the only effect: the files are as before and nothing is written.
\<close>

theorem caller_annotations_mutated:
  assumes "fst (normalize_annotations (mask_codec E) annotations (heap st)) = None"
    and "distinct annotations"
  shows "(\<forall>r \<in> set annotations. \<exists>m m' b b'.
            mask (heap st r) = Some m \<and> from_urle (mask_codec E) m = Inr m'
          \<and> bbox (heap st r) = Some b
          \<and> heap (snd (save_item_annotations E item_id annotations st)) r
              = (heap st r)\<lparr>mask := Some m', bbox := Some b'\<rparr>
          \<and> (coords b \<noteq> [0, 0, 0, 0] \<longrightarrow> b' = b)
          \<and> (coords b = [0, 0, 0, 0]
               \<longrightarrow> then_do (to_mask (mask_codec E) m') from_mask = Inr b'))
       \<and> ((\<forall>t \<in> snd ` set (files st). \<not> holds_item item_id t)
            \<longrightarrow> files (snd (save_item_annotations E item_id annotations st)) = files st
              \<and> written_paths (events (snd (save_item_annotations E item_id annotations st)))
                  = written_paths (events st))"
proof -
  obtain h where n: "normalize_annotations (mask_codec E) annotations (heap st) = (None, h)"
    using assms(1) by (cases "normalize_annotations (mask_codec E) annotations (heap st)") auto
  let ?ps = "sort_key (\<lambda>x. natural_key (path_name x)) (map fst (files st))"
  let ?st = "st\<lparr>heap := h\<rparr>"
  have eq: "save_item_annotations E item_id annotations st
              = update_files E item_id (map h annotations) ?ps ?st"
    using n by (simp add: save_item_annotations_def)
  have hp: "heap (snd (save_item_annotations E item_id annotations st)) = h"
    unfolding eq by (simp add: update_files_heap)
  show ?thesis
  proof (intro conjI impI)
    show "\<forall>r \<in> set annotations. \<exists>m m' b b'.
            mask (heap st r) = Some m \<and> from_urle (mask_codec E) m = Inr m'
          \<and> bbox (heap st r) = Some b
          \<and> heap (snd (save_item_annotations E item_id annotations st)) r
              = (heap st r)\<lparr>mask := Some m', bbox := Some b'\<rparr>
          \<and> (coords b \<noteq> [0, 0, 0, 0] \<longrightarrow> b' = b)
          \<and> (coords b = [0, 0, 0, 0]
               \<longrightarrow> then_do (to_mask (mask_codec E) m') from_mask = Inr b')"
      unfolding hp using normalize_annotations_ok[OF n assms(2)] by blast
  next
    assume "\<forall>t \<in> snd ` set (files st). \<not> holds_item item_id t"
    then have "\<forall>t \<in> snd ` set (files ?st). \<not> holds_item item_id t" by simp
    from update_files_absent[OF this, of E "map h annotations" ?ps]
    show "files (snd (save_item_annotations E item_id annotations st)) = files st"
      and "written_paths (events (snd (save_item_annotations E item_id annotations st)))
                  = written_paths (events st)"
      unfolding eq by simp_all
  qed
qed

lemma unique_holder:
  assumes "distinct (concat (map (\<lambda>pt. table_ids (snd pt)) fs))"
    and "(p, t) \<in> set fs" and "(q, u) \<in> set fs" and "holds_item i t" and "holds_item i u"
  shows "p = q"
  using assms
proof (induction fs)
  case Nil
  then show ?case by simp
next
  case (Cons a fs)
  then show ?case by (fastforce simp: holds_item_def)
qed

lemma filter_at_most_one:
  assumes "distinct ps" and "\<forall>p \<in> set ps. \<forall>q \<in> set ps. P p \<and> P q \<longrightarrow> p = q"
  shows "length (filter P ps) \<le> 1"
  using assms
proof (induction ps)
  case Nil
  then show ?case by simp
next
  case (Cons a ps)
  show ?case
  proof (cases "P a")
    case True
    have "filter P ps = []" using Cons.prems True by (auto simp: filter_empty_conv)
    then show ?thesis using True by simp
  next
    case False
    then show ?thesis using Cons by simp
  qed
qed

text \<open>
  Claim C4: for every call that returns without an exception, over distinct shard
  files whose item identifiers are unique across the shard set, the call writes to at
  most one path; the paths written are exactly the shard files that hold the item (one
  or none); and every shard file that does not hold the item has its content unchanged.
\<close>

theorem at_most_one_shard_rewritten:
  assumes "distinct (map fst (files st))"
    and "distinct (concat (map (\<lambda>pt. table_ids (snd pt)) (files st)))"
    and "fst (save_item_annotations E item_id annotations st) = None"
  shows "\<exists>ws. written_paths (events (snd (save_item_annotations E item_id annotations st)))
                 = written_paths (events st) @ ws
            \<and> length ws \<le> 1
            \<and> set ws = {p. \<exists>t. (p, t) \<in> set (files st) \<and> holds_item item_id t}
            \<and> (\<forall>p t. (p, t) \<in> set (files st) \<and> \<not> holds_item item_id t
                  \<longrightarrow> map_of (files (snd (save_item_annotations E item_id annotations st))) p
                      = Some t)"
proof -
  obtain err h where n: "normalize_annotations (mask_codec E) annotations (heap st) = (err, h)"
    by (cases "normalize_annotations (mask_codec E) annotations (heap st)")
  have err: "err = None" using assms(3) n by (cases err) (auto simp: save_item_annotations_def)
  let ?ps = "sort_key (\<lambda>x. natural_key (path_name x)) (map fst (files st))"
  let ?st = "st\<lparr>heap := h\<rparr>"
  let ?P = "\<lambda>p. holds_item item_id (the (map_of (files st) p))"
  have eq: "save_item_annotations E item_id annotations st
              = update_files E item_id (map h annotations) ?ps ?st"
    using n err by (simp add: save_item_annotations_def)
  have dps: "distinct ?ps" using assms(1) by simp
  have ok: "fst (update_files E item_id (map h annotations) ?ps ?st) = None"
    using assms(3) unfolding eq .
  have lookup: "\<And>p t. (p, t) \<in> set (files st) \<Longrightarrow> map_of (files st) p = Some t"
    using assms(1) by simp
  from update_files_writes[OF dps ok]
  have w: "written_paths (events (snd (save_item_annotations E item_id annotations st)))
             = written_paths (events st) @ filter ?P ?ps"
    and fr: "\<forall>q. q \<notin> set (filter ?P ?ps)
               \<longrightarrow> map_of (files (snd (save_item_annotations E item_id annotations st))) q
                   = map_of (files st) q"
    unfolding eq by simp_all
  have uniq: "\<forall>p \<in> set ?ps. \<forall>q \<in> set ?ps. ?P p \<and> ?P q \<longrightarrow> p = q"
  proof (intro ballI impI)
    fix p q assume p: "p \<in> set ?ps" and q: "q \<in> set ?ps" and pq: "?P p \<and> ?P q"
    from p obtain t where t: "(p, t) \<in> set (files st)" by auto
    from q obtain u where u: "(q, u) \<in> set (files st)" by auto
    have "holds_item item_id t" "holds_item item_id u"
      using pq lookup[OF t] lookup[OF u] by simp_all
    then show "p = q" by (rule unique_holder[OF assms(2) t u])
  qed
  have len: "length (filter ?P ?ps) \<le> 1" by (rule filter_at_most_one[OF dps uniq])
  have st: "set (filter ?P ?ps) = {p. \<exists>t. (p, t) \<in> set (files st) \<and> holds_item item_id t}"
  proof (intro set_eqI iffI)
    fix p assume "p \<in> set (filter ?P ?ps)"
    then have p: "p \<in> fst ` set (files st)" and h: "?P p" by auto
    from p obtain t where t: "(p, t) \<in> set (files st)" by auto
    then show "p \<in> {p. \<exists>t. (p, t) \<in> set (files st) \<and> holds_item item_id t}"
      using h lookup[OF t] by auto
  next
    fix p assume "p \<in> {p. \<exists>t. (p, t) \<in> set (files st) \<and> holds_item item_id t}"
    then obtain t where t: "(p, t) \<in> set (files st)" "holds_item item_id t" by auto
    then show "p \<in> set (filter ?P ?ps)" using lookup[OF t(1)] by force
  qed
  have others: "\<forall>p t. (p, t) \<in> set (files st) \<and> \<not> holds_item item_id t
                  \<longrightarrow> map_of (files (snd (save_item_annotations E item_id annotations st))) p
                      = Some t"
  proof (intro allI impI)
    fix p t assume a: "(p, t) \<in> set (files st) \<and> \<not> holds_item item_id t"
    then have "p \<notin> set (filter ?P ?ps)" using lookup[of p t] by simp
    then show "map_of (files (snd (save_item_annotations E item_id annotations st))) p = Some t"
      using fr a lookup[of p t] by simp
  qed
  show ?thesis using w len st others by blast
qed

lemma example_ok:
  "fst (save_item_annotations example_env ''img_7'' [0] example_store) = None"
  by code_simp

lemma example_paths:
  "map fst (files example_store) = [''db/shard_1.parquet'', ''db/shard_0.parquet'']"
  by (simp add: example_store_def)

lemma example_unique_ids:
  "distinct (concat (map (\<lambda>pt. table_ids (snd pt)) (files example_store)))"
  by code_simp

text \<open>
  Claim C2 as stated has the new table written to a temporary file that is then renamed
  over the original. In the run on the concrete dataset the one table that is written
  goes to the path of the shard itself, which is one of the files listed at the start.
\<close>

theorem shard_rewrite_counterexample:
  "written_paths (events (snd (save_item_annotations example_env ''img_7'' [0] example_store)))
     = [''db/shard_1.parquet'']
   \<and> ''db/shard_1.parquet'' \<in> set (map fst (files example_store))"
  by (simp add: example_events example_paths)

theorem shard_rewrite_in_place_witness:
  "map_of (files (snd (save_item_annotations example_env ''img_7'' [0] example_store)))
     ''db/shard_0.parquet'' = Some shard_0
   \<and> (\<exists>t'. map_of (files (snd (save_item_annotations example_env ''img_7'' [0] example_store)))
               ''db/shard_1.parquet'' = Some t'
            \<and> rectangular t' \<and> map fst t' = [id_field, objects_field])"
proof -
  let ?fin = "snd (save_item_annotations example_env ''img_7'' [0] example_store)"
  have d: "distinct (map fst (files example_store))" by (simp add: example_paths)
  from shard_rewrite_in_place[OF d, of example_env "''img_7''" "[0]"]
  obtain new where
    ev: "events ?fin = events example_store @ new"
    and wr: "\<forall>p T'. WriteTable p T' \<in> set new \<longrightarrow>
             (\<exists>t. map_of (files example_store) p = Some t \<and> holds_item ''img_7'' t
                \<and> update_shard example_env ''img_7'' (map (heap ?fin) [0]) t = Inr (Some T')
                \<and> (\<exists>sch upd. legacy_fields example_env (map fst t) (map fst t, []) = Inr (sch, upd)
                       \<and> map fst T' = sch))
           \<and> rectangular T'
           \<and> map_of (files ?fin) p = Some T'"
    and fr: "\<forall>q. q \<notin> set (written_paths new)
             \<longrightarrow> map_of (files ?fin) q = map_of (files example_store) q"
    by blast
  have "events example_store = []" by (simp add: example_store_def)
  then have new: "new = events ?fin" using ev by simp
  have "written_paths new = [''db/shard_1.parquet'']"
    unfolding new by (simp add: example_events)
  then have "''db/shard_0.parquet'' \<notin> set (written_paths new)" by simp
  then have "map_of (files ?fin) ''db/shard_0.parquet''
               = map_of (files example_store) ''db/shard_0.parquet''"
    using fr by blast
  then have A: "map_of (files ?fin) ''db/shard_0.parquet'' = Some shard_0"
    by (simp add: example_store_def)
  obtain T' where w: "WriteTable ''db/shard_1.parquet'' T' \<in> set new"
    unfolding new by (simp add: example_events)
  with wr obtain t sch upd where t: "map_of (files example_store) ''db/shard_1.parquet'' = Some t"
    and l: "legacy_fields example_env (map fst t) (map fst t, []) = Inr (sch, upd)"
    and s: "map fst T' = sch" and r: "rectangular T'"
    and f: "map_of (files ?fin) ''db/shard_1.parquet'' = Some T'" by blast
  have "t = shard_1" using t by (simp add: example_store_def)
  moreover have "legacy_fields example_env (map fst shard_1) (map fst shard_1, [])
                   = Inr ([id_field, objects_field], [])" by code_simp
  ultimately have "sch = [id_field, objects_field]" using l by simp
  then have "map fst T' = [id_field, objects_field]" using s by simp
  then have "\<exists>t'. map_of (files ?fin) ''db/shard_1.parquet'' = Some t'
            \<and> rectangular t' \<and> map fst t' = [id_field, objects_field]"
    using f r by (intro exI[of _ T']) simp
  then show ?thesis using A by (rule conjI[rotated])
qed

theorem at_most_one_shard_rewritten_witness:
  "written_paths (events (snd (save_item_annotations example_env ''img_7'' [0] example_store)))
     = [''db/shard_1.parquet'']
   \<and> map_of (files (snd (save_item_annotations example_env ''img_7'' [0] example_store)))
        ''db/shard_0.parquet'' = Some shard_0"
proof -
  have d: "distinct (map fst (files example_store))" by (simp add: example_paths)
  from at_most_one_shard_rewritten[OF d example_unique_ids example_ok]
  obtain ws where
    w: "written_paths (events (snd (save_item_annotations example_env ''img_7'' [0] example_store)))
          = written_paths (events example_store) @ ws"
    and l: "length ws \<le> 1"
    and s: "set ws = {p. \<exists>t. (p, t) \<in> set (files example_store) \<and> holds_item ''img_7'' t}"
    and o: "\<forall>p t. (p, t) \<in> set (files example_store) \<and> \<not> holds_item ''img_7'' t
              \<longrightarrow> map_of (files (snd (save_item_annotations example_env ''img_7'' [0] example_store))) p
                  = Some t"
    by blast
  have h1: "holds_item ''img_7'' shard_1" by code_simp
  have h0: "\<not> holds_item ''img_7'' shard_0" by code_simp
  have "''db/shard_1.parquet'' \<in> set ws" using s h1 by (auto simp: example_store_def)
  then have "ws = [''db/shard_1.parquet'']" using l by (cases ws) auto
  moreover have "(''db/shard_0.parquet'', shard_0) \<in> set (files example_store)"
    by (simp add: example_store_def)
  ultimately show ?thesis using w o h0 by (simp add: example_store_def)
qed

lemma example_normalize_ok:
  "fst (normalize_annotations (mask_codec example_env) [0] (heap example_store)) = None"
  by code_simp

theorem caller_annotations_mutated_witness:
  "mask (heap (snd (save_item_annotations example_env ''img_99'' [0] example_store)) 0)
     = Some \<lparr>size_hw = [2, 2], counts = Packed [1, 1, 1, 1]\<rparr>
   \<and> files (snd (save_item_annotations example_env ''img_99'' [0] example_store))
       = files example_store"
proof -
  have d: "distinct [0::nat]" by simp
  have absent: "\<forall>t \<in> snd ` set (files example_store). \<not> holds_item ''img_99'' t"
    by code_simp
  from caller_annotations_mutated[OF example_normalize_ok d, of "''img_99''"] absent
  obtain m m' b b' where
    "mask (heap example_store 0) = Some m" "from_urle (mask_codec example_env) m = Inr m'"
    "heap (snd (save_item_annotations example_env ''img_99'' [0] example_store)) 0
       = (heap example_store 0)\<lparr>mask := Some m', bbox := Some b'\<rparr>"
    and f: "files (snd (save_item_annotations example_env ''img_99'' [0] example_store))
       = files example_store"
    by auto
  moreover have "mask (heap example_store 0) = Some \<lparr>size_hw = [2, 2], counts = Runs [1, 1, 1, 1]\<rparr>"
    by (simp add: example_store_def urle_annotation_def)
  moreover have "from_urle (mask_codec example_env) \<lparr>size_hw = [2, 2], counts = Runs [1, 1, 1, 1]\<rparr>
     = Inr \<lparr>size_hw = [2, 2], counts = Packed [1, 1, 1, 1]\<rparr>"
    by code_simp
  ultimately show ?thesis by simp
qed

text \<open>
  Claim C1 at a failing input: the caller passes one annotation with a mask in the
  interchange form and no bounding box (\<open>bbox = None\<close>), for an item that the second
  shard holds. Line 270 reads \<open>ann.bbox.coords\<close> and raises \<open>AttributeError\<close>; no file is
  read or written, so nothing is stored for the item.
\<close>

theorem missing_bbox_raises:
  "fst (save_item_annotations example_env ''img_7'' [0]
          (example_store\<lparr>heap := (\<lambda>r. urle_annotation\<lparr>bbox := None\<rparr>)\<rparr>)) = Some AttributeError
   \<and> files (snd (save_item_annotations example_env ''img_7'' [0]
          (example_store\<lparr>heap := (\<lambda>r. urle_annotation\<lparr>bbox := None\<rparr>)\<rparr>))) = files example_store
   \<and> events (snd (save_item_annotations example_env ''img_7'' [0]
          (example_store\<lparr>heap := (\<lambda>r. urle_annotation\<lparr>bbox := None\<rparr>)\<rparr>))) = []"
  by code_simp

section \<open>Properties of one shard rewrite\<close>

lemma singleton_list:
  assumes "distinct xs" and "set xs = {x}"
  shows "xs = [x]"
proof (cases xs)
  case Nil
  then show ?thesis using assms by simp
next
  case (Cons a as)
  then have "a = x" "set as \<subseteq> {x}" "a \<notin> set as" using assms by auto
  then have "as = []" by (cases as) auto
  then show ?thesis using Cons \<open>a = x\<close> by simp
qed

lemma get_field_index_distinct:
  assumes "distinct (map name sch)" and "i < length sch" and "name (sch ! i) = n"
  shows "get_field_index sch n = int i"
proof -
  let ?xs = "filter (\<lambda>k. name (sch ! k) = n) [0..<length sch]"
  have "set ?xs = {i}"
  proof (intro set_eqI iffI)
    fix k assume "k \<in> set ?xs"
    then have "k < length sch" "name (sch ! k) = n" by auto
    then have "map name sch ! k = map name sch ! i" using assms by simp
    then have "k = i" using assms(1,2) \<open>k < length sch\<close>
      by (simp add: nth_eq_iff_index_eq del: nth_map)
    then show "k \<in> {i}" by simp
  next
    fix k assume "k \<in> {i}" then show "k \<in> set ?xs" using assms by simp
  qed
  moreover have "distinct ?xs" by simp
  ultimately have "?xs = [i]" by (rule singleton_list[rotated])
  then show ?thesis by (simp add: get_field_index_def)
qed

lemma get_field_index_valid:
  assumes "0 \<le> get_field_index sch n"
  shows "nat (get_field_index sch n) < length sch \<and> name (sch ! nat (get_field_index sch n)) = n"
proof -
  let ?xs = "filter (\<lambda>k. name (sch ! k) = n) [0..<length sch]"
  from assms obtain i where xs: "?xs = [i]" and g: "get_field_index sch n = int i"
    by (auto simp: get_field_index_def split: list.splits)
  have "i \<in> set ?xs" using xs by simp
  then show ?thesis using g by simp
qed

lemma table_column_distinct:
  assumes "distinct (map (\<lambda>fc. name (fst fc)) t)" and "(f, c) \<in> set t"
  shows "table_column t (name f) = Inr c"
proof -
  from assms(2) obtain i where i: "i < length t" "t ! i = (f, c)" by (auto simp: in_set_conv_nth)
  have d: "distinct (map name (map fst t))" using assms(1) by (simp add: comp_def)
  have "get_field_index (map fst t) (name f) = int i"
    using get_field_index_distinct[OF d, of i "name f"] i by simp
  then show ?thesis using i by (simp add: table_column_def)
qed

lemma table_column_Inr:
  assumes "table_column t n = Inr c"
  shows "\<exists>f. (f, c) \<in> set t \<and> name f = n"
proof -
  have g: "0 \<le> get_field_index (map fst t) n" and c: "c = snd (t ! nat (get_field_index (map fst t) n))"
    using assms by (auto simp: table_column_def Let_def split: if_splits)
  from get_field_index_valid[OF g]
  have "nat (get_field_index (map fst t) n) < length t"
    "name (fst (t ! nat (get_field_index (map fst t) n))) = n" by auto
  then show ?thesis using c
    by (intro exI[of _ "fst (t ! nat (get_field_index (map fst t) n))"]) (auto simp: in_set_conv_nth)
qed

lemma schema_remove_names:
  assumes "schema_remove sch (get_field_index sch n) = Inr s" and "distinct (map name sch)"
  shows "distinct (map name s) \<and> set (map name s) = set (map name sch) - {n} \<and> n \<in> set (map name sch)"
proof -
  let ?i = "nat (get_field_index sch n)"
  have g: "0 \<le> get_field_index sch n" and s: "s = take ?i sch @ drop (Suc ?i) sch"
    using assms(1) by (auto simp: schema_remove_def split: if_splits)
  from get_field_index_valid[OF g] have i: "?i < length sch" "name (sch ! ?i) = n" by auto
  have sch: "sch = take ?i sch @ sch ! ?i # drop (Suc ?i) sch" using i(1) by (rule id_take_nth_drop)
  have "distinct (map name (take ?i sch @ sch ! ?i # drop (Suc ?i) sch))" using assms(2) sch by simp
  then have d: "distinct (map name (take ?i sch)) \<and> distinct (map name (drop (Suc ?i) sch))
      \<and> n \<notin> set (map name (take ?i sch)) \<and> n \<notin> set (map name (drop (Suc ?i) sch))
      \<and> set (map name (take ?i sch)) \<inter> set (map name (drop (Suc ?i) sch)) = {}"
    using i(2) by auto
  have "set (map name sch) = set (map name (take ?i sch)) \<union> {n} \<union> set (map name (drop (Suc ?i) sch))"
    by (subst sch) (simp add: i(2))
  then show ?thesis using d unfolding s by auto
qed

lemma schema_remove_keeps:
  assumes "schema_remove sch (get_field_index sch n) = Inr s" and "g \<in> set sch"
    and "name g \<noteq> n"
  shows "g \<in> set s"
proof -
  let ?i = "nat (get_field_index sch n)"
  have g: "0 \<le> get_field_index sch n" and s: "s = take ?i sch @ drop (Suc ?i) sch"
    using assms(1) by (auto simp: schema_remove_def split: if_splits)
  from get_field_index_valid[OF g] have i: "?i < length sch" "name (sch ! ?i) = n" by auto
  from assms(2) obtain j where j: "j < length sch" "sch ! j = g" by (auto simp: in_set_conv_nth)
  have ne: "j \<noteq> ?i" using assms(3) i(2) j(2) by auto
  show ?thesis
  proof (cases "j < ?i")
    case True
    have "j < length (take ?i sch)" using True i(1) by simp
    then have "take ?i sch ! j \<in> set (take ?i sch)" by (rule nth_mem)
    then have "g \<in> set (take ?i sch)" using True j(2) by simp
    then show ?thesis unfolding s by simp
  next
    case False
    then have "Suc ?i \<le> j" using ne by simp
    then have "j - Suc ?i < length (drop (Suc ?i) sch)" using j(1) by simp
    then have "drop (Suc ?i) sch ! (j - Suc ?i) \<in> set (drop (Suc ?i) sch)" by (rule nth_mem)
    moreover have "drop (Suc ?i) sch ! (j - Suc ?i) = sch ! j"
      using \<open>Suc ?i \<le> j\<close> j(1) by simp
    ultimately have "g \<in> set (drop (Suc ?i) sch)" using j(2) by simp
    then show ?thesis unfolding s by simp
  qed
qed

lemma legacy_signatures_differ: "legacy_objects_signature \<noteq> legacy_image_signature"
  by (simp add: legacy_objects_signature_def legacy_image_signature_def)

lemma legacy_field_cases:
  assumes "legacy_field E f acc = Inr acc'"
  obtains (objects) s where "type_str (ftype f) = legacy_objects_signature"
      "schema_remove (fst acc) (get_field_index (fst acc) ''objects'') = Inr s"
      "acc' = (s @ [\<lparr>name = name f, ftype = ListType (ObjectAnnotationType E)\<rparr>], snd acc @ [name f])"
  | (image) s where "type_str (ftype f) = legacy_image_signature"
      "schema_remove (fst acc) (get_field_index (fst acc) (name f)) = Inr s"
      "acc' = (s @ [\<lparr>name = name f, ftype = ImageType E\<rparr>], snd acc @ [name f])"
  | (current) "type_str (ftype f) \<noteq> legacy_objects_signature"
      "type_str (ftype f) \<noteq> legacy_image_signature" "acc' = acc"
proof (cases "type_str (ftype f) = legacy_objects_signature")
  case True
  then have ni: "type_str (ftype f) \<noteq> legacy_image_signature"
    using legacy_signatures_differ by simp
  from assms True ni obtain s where
    "schema_remove (fst acc) (get_field_index (fst acc) ''objects'') = Inr s"
    "acc' = (s @ [\<lparr>name = name f, ftype = ListType (ObjectAnnotationType E)\<rparr>], snd acc @ [name f])"
    by (auto simp: legacy_field_def then_do_def split: sum.splits)
  then show ?thesis using objects True by blast
next
  case False
  show ?thesis
  proof (cases "type_str (ftype f) = legacy_image_signature")
    case True
    from assms False True obtain s where
      "schema_remove (fst acc) (get_field_index (fst acc) (name f)) = Inr s"
      "acc' = (s @ [\<lparr>name = name f, ftype = ImageType E\<rparr>], snd acc @ [name f])"
      by (auto simp: legacy_field_def then_do_def split: sum.splits)
    then show ?thesis using image True by blast
  next
    case F2: False
    then have "acc' = acc" using assms False by (simp add: legacy_field_def then_do_def)
    then show ?thesis using current False F2 by blast
  qed
qed

lemma legacy_field_names:
  assumes "legacy_field E f acc = Inr acc'" and "distinct (map name (fst acc))"
    and "type_str (ftype f) = legacy_objects_signature \<longrightarrow> name f = ''objects''"
  shows "distinct (map name (fst acc')) \<and> set (map name (fst acc')) = set (map name (fst acc))"
  using assms(1)
proof (cases rule: legacy_field_cases)
  case (objects s)
  then have nm: "name f = ''objects''" using assms(3) by simp
  from schema_remove_names[OF objects(2) assms(2)] show ?thesis using objects(3) nm by auto
next
  case (image s)
  from schema_remove_names[OF image(2) assms(2)] show ?thesis using image(3) by auto
next
  case current
  then show ?thesis using assms(2) by simp
qed

lemma legacy_fields_names:
  assumes "legacy_fields E fs acc = Inr acc'" and "distinct (map name (fst acc))"
    and "\<forall>f \<in> set fs. type_str (ftype f) = legacy_objects_signature \<longrightarrow> name f = ''objects''"
  shows "distinct (map name (fst acc')) \<and> set (map name (fst acc')) = set (map name (fst acc))"
  using assms
proof (induction fs arbitrary: acc)
  case Nil
  then show ?case by simp
next
  case (Cons f fs)
  from Cons.prems(1) obtain acc1 where 1: "legacy_field E f acc = Inr acc1"
    and 2: "legacy_fields E fs acc1 = Inr acc'"
    by (auto simp: then_do_def split: sum.splits)
  have n1: "distinct (map name (fst acc1)) \<and> set (map name (fst acc1)) = set (map name (fst acc))"
    using legacy_field_names[OF 1 Cons.prems(2)] Cons.prems(3) by simp
  show ?case using Cons.IH[OF 2] n1 Cons.prems(3) by simp
qed

lemma legacy_field_keeps:
  assumes "legacy_field E f acc = Inr acc'" and "g \<in> set (fst acc)"
    and "name g \<noteq> ''objects''"
    and "type_str (ftype f) = legacy_image_signature \<longrightarrow> name f \<noteq> name g"
  shows "g \<in> set (fst acc')"
  using assms(1)
proof (cases rule: legacy_field_cases)
  case (objects s)
  from schema_remove_keeps[OF objects(2) assms(2,3)] show ?thesis using objects(3) by simp
next
  case (image s)
  have "name g \<noteq> name f" using assms(4) image(1) by auto
  from schema_remove_keeps[OF image(2) assms(2) this] show ?thesis using image(3) by simp
next
  case current
  then show ?thesis using assms(2) by simp
qed

lemma legacy_fields_keeps:
  assumes "legacy_fields E fs acc = Inr acc'" and "g \<in> set (fst acc)"
    and "name g \<noteq> ''objects''"
    and "\<forall>f \<in> set fs. type_str (ftype f) = legacy_image_signature \<longrightarrow> name f \<noteq> name g"
  shows "g \<in> set (fst acc')"
  using assms
proof (induction fs arbitrary: acc)
  case Nil
  then show ?case by simp
next
  case (Cons f fs)
  from Cons.prems(1) obtain acc1 where 1: "legacy_field E f acc = Inr acc1"
    and 2: "legacy_fields E fs acc1 = Inr acc'"
    by (auto simp: then_do_def split: sum.splits)
  have "g \<in> set (fst acc1)"
    using legacy_field_keeps[OF 1 Cons.prems(2,3)] Cons.prems(4) by simp
  from Cons.IH[OF 2 this Cons.prems(3)] Cons.prems(4) show ?case by simp
qed

lemma to_pydict_distinct:
  assumes "distinct (map (\<lambda>fc. name (fst fc)) t)" and "(f, c) \<in> set t"
  shows "to_pydict t (name f) = Some c"
proof -
  let ?kv = "rev (map (\<lambda>fc. (name (fst fc), snd fc)) t)"
  have "distinct (map fst ?kv)" using assms(1) by (simp add: rev_map[symmetric] comp_def)
  moreover have "(name f, c) \<in> set ?kv" using assms(2) by force
  ultimately show ?thesis unfolding to_pydict_def by (rule map_of_is_SomeI)
qed

lemma first_row_distinct:
  assumes "distinct (map (\<lambda>fc. name (fst fc)) t)" and "(f, c) \<in> set t"
  shows "first_row t (name f) = Some (case c of [] \<Rightarrow> Py PyNone | v # _ \<Rightarrow> v)"
proof -
  let ?kv = "rev (map (\<lambda>fc. (name (fst fc), case snd fc of [] \<Rightarrow> Py PyNone | v # _ \<Rightarrow> v)) t)"
  have "distinct (map fst ?kv)" using assms(1) by (simp add: rev_map[symmetric] comp_def)
  moreover have "(name f, case c of [] \<Rightarrow> Py PyNone | v # _ \<Rightarrow> v) \<in> set ?kv"
    using assms(2) by force
  ultimately show ?thesis unfolding first_row_def by (rule map_of_is_SomeI)
qed

lemma table_filter_names: "map (\<lambda>fc. name (fst fc)) (table_filter k t) = map (\<lambda>fc. name (fst fc)) t"
  by (simp add: table_filter_def comp_def)

lemma table_filter_mem: "(f, c) \<in> set t \<Longrightarrow> (f, filter_rows k c) \<in> set (table_filter k t)"
  by (force simp: table_filter_def)

lemma append_row_result:
  assumes "append_row fs row ut = Inr ut'" and "distinct (map name fs)"
  shows "ut' n = (if n \<in> set (map name fs) then Some (the (ut n) @ [the (row n)]) else ut n)"
  using assms
proof (induction fs arbitrary: ut)
  case Nil
  then show ?case by simp
next
  case (Cons f fs)
  from Cons.prems(1) obtain col v where c: "ut (name f) = Some col" and v: "row (name f) = Some v"
    and r: "append_row fs row (ut(name f \<mapsto> col @ [v])) = Inr ut'"
    by (auto split: option.splits)
  have d: "distinct (map name fs)" and nf: "name f \<notin> set (map name fs)" using Cons.prems(2) by auto
  from Cons.IH[OF r d]
  have ih: "ut' n = (if n \<in> set (map name fs)
                      then Some (the ((ut(name f \<mapsto> col @ [v])) n) @ [the (row n)])
                      else (ut(name f \<mapsto> col @ [v])) n)" .
  show ?case
  proof (cases "n = name f")
    case True
    then show ?thesis using ih nf c v by simp
  next
    case False
    then show ?thesis using ih by auto
  qed
qed

lemma id_string_Inr: "id_string c = Inr s \<Longrightarrow> c = Py (PyStr s)"
  by (auto simp: id_string_def split: cell.splits pyval.splits)

lemma map_result_all2: "map_result f xs = Inr ys \<Longrightarrow> list_all2 (\<lambda>x y. f x = Inr y) xs ys"
proof (induction xs arbitrary: ys)
  case Nil
  then show ?case by simp
next
  case (Cons x xs)
  then show ?case by (auto simp: then_do_def split: sum.splits)
qed

lemma map_result_id_string:
  assumes "map_result id_string ids = Inr keys"
  shows "ids = map (\<lambda>s. Py (PyStr s)) keys"
proof -
  have "list_all2 (\<lambda>x y. id_string x = Inr y) ids keys" using assms by (rule map_result_all2)
  then have "list_all2 (\<lambda>x y. x = Py (PyStr y)) ids keys"
    by (rule list_all2_mono) (rule id_string_Inr)
  then show ?thesis by (induction rule: list_all2_induct) auto
qed

lemma sort_column_result:
  assumes "sort_column ids col = Inr cs" and "length ids = length col"
  shows "\<exists>keys. ids = map (\<lambda>s. Py (PyStr s)) keys
           \<and> cs = map snd (sort_key (\<lambda>pair. natural_key (fst pair)) (zip keys col))"
proof -
  from assms obtain keys where k: "map_result id_string ids = Inr keys"
    and cs: "cs = map snd (sort_key (\<lambda>pair. natural_key (fst pair)) (zip keys col))"
    by (auto simp: sort_column_def then_do_def split: sum.splits)
  from map_result_id_string[OF k] show ?thesis using cs by blast
qed

lemma sort_fields_result:
  assumes "sort_fields fs ut = Inr ut'" and "distinct (map name fs)"
  shows "ut' ''id'' = ut ''id''
       \<and> (\<forall>f \<in> set fs. name f \<noteq> ''id'' \<longrightarrow>
           (\<exists>ids col cs. ut ''id'' = Some ids \<and> ut (name f) = Some col
              \<and> sort_column ids col = Inr cs \<and> ut' (name f) = Some cs))
       \<and> (\<forall>n. n \<notin> set (map name fs) \<longrightarrow> ut' n = ut n)"
  using assms
proof (induction fs arbitrary: ut)
  case Nil
  then show ?case by simp
next
  case (Cons f fs)
  have d: "distinct (map name fs)" and nf: "name f \<notin> set (map name fs)"
    using Cons.prems(2) by auto
  show ?case
  proof (cases "name f = ''id''")
    case True
    then have r: "sort_fields fs ut = Inr ut'" using Cons.prems(1) by simp
    from Cons.IH[OF r d] True show ?thesis by simp
  next
    case False
    from Cons.prems(1) False obtain ids col cs where i: "ut ''id'' = Some ids"
      and c: "ut (name f) = Some col" and s: "sort_column ids col = Inr cs"
      and r: "sort_fields fs (ut(name f \<mapsto> cs)) = Inr ut'"
      by (auto simp: then_do_def split: option.splits sum.splits)
    let ?u = "ut(name f \<mapsto> cs)"
    note ih = Cons.IH[OF r d]
    have idne: "''id'' \<noteq> name f" using False by auto
    have a: "ut' ''id'' = ut ''id''" using ih idne by simp
    have b: "ut' (name f) = Some cs" using ih nf by simp
    have c': "\<forall>g \<in> set fs. name g \<noteq> ''id'' \<longrightarrow>
         (\<exists>ids col cs. ut ''id'' = Some ids \<and> ut (name g) = Some col
            \<and> sort_column ids col = Inr cs \<and> ut' (name g) = Some cs)"
    proof (intro ballI impI)
      fix g assume g: "g \<in> set fs" "name g \<noteq> ''id''"
      then have "name g \<in> set (map name fs)" by simp
      then have ne: "name g \<noteq> name f" using nf by metis
      from ih g obtain ids' col' cs' where
        "?u ''id'' = Some ids'" "?u (name g) = Some col'" "sort_column ids' col' = Inr cs'"
        "ut' (name g) = Some cs'" by blast
      then show "\<exists>ids col cs. ut ''id'' = Some ids \<and> ut (name g) = Some col
            \<and> sort_column ids col = Inr cs \<and> ut' (name g) = Some cs"
        using ne idne by auto
    qed
    have e: "\<forall>n. n \<notin> set (map name (f # fs)) \<longrightarrow> ut' n = ut n"
      using ih by auto
    show ?thesis using a b c' e i c s by auto
  qed
qed

lemma upgrade_column_result:
  assumes "upgrade_column up n ut = Inr ut'"
  shows "\<exists>col col'. ut n = Some col \<and> map_result up col = Inr col' \<and> ut' = ut(n \<mapsto> col')"
  using assms by (auto simp: upgrade_column_def then_do_def split: option.splits sum.splits)

lemma list_all2_then_do:
  assumes "list_all2 (\<lambda>x y. f x = Inr y) xs ys" and "list_all2 (\<lambda>y z. g y = Inr z) ys zs"
  shows "list_all2 (\<lambda>x z. then_do (f x) g = Inr z) xs zs"
  using _ assms by (rule list_all2_trans) (simp add: then_do_def)

lemma migrate_one_field:
  assumes s1: "(if is_image_type E (ftype f) \<and> name f \<in> set upd
               then upgrade_column (upgrade_image E) (name f) ut else Inr ut) = Inr ut1"
    and s2: "(if is_list_of_object_annotation_type E (ftype f) \<and> name f \<in> set upd
               then upgrade_column (upgrade_objects E) (name f) ut1 else Inr ut1) = Inr ut2"
  shows "(\<forall>m. m \<noteq> name f \<longrightarrow> ut2 m = ut m)
       \<and> (\<forall>col. ut (name f) = Some col \<longrightarrow>
            (\<exists>col'. ut2 (name f) = Some col'
               \<and> list_all2 (\<lambda>x y. upgrade_cell E upd f x = Inr y) col col'))"
proof -
  let ?P1 = "is_image_type E (ftype f) \<and> name f \<in> set upd"
  let ?P2 = "is_list_of_object_annotation_type E (ftype f) \<and> name f \<in> set upd"
  have A: "(\<forall>m. m \<noteq> name f \<longrightarrow> ut1 m = ut m)
       \<and> (\<forall>col. ut (name f) = Some col \<longrightarrow>
            (\<exists>col'. ut1 (name f) = Some col'
               \<and> list_all2 (\<lambda>x y. (if ?P1 then upgrade_image E x else Inr x) = Inr y) col col'))"
  proof (cases ?P1)
    case True
    with s1 have "upgrade_column (upgrade_image E) (name f) ut = Inr ut1" by simp
    from upgrade_column_result[OF this] obtain col col' where
      "ut (name f) = Some col" "map_result (upgrade_image E) col = Inr col'"
      "ut1 = ut(name f \<mapsto> col')" by blast
    then show ?thesis using True map_result_all2[of "upgrade_image E" col col'] by auto
  next
    case False
    with s1 have "ut1 = ut" by simp
    then show ?thesis using False by (auto simp: list_all2_same)
  qed
  have B: "(\<forall>m. m \<noteq> name f \<longrightarrow> ut2 m = ut1 m)
       \<and> (\<forall>col. ut1 (name f) = Some col \<longrightarrow>
            (\<exists>col'. ut2 (name f) = Some col'
               \<and> list_all2 (\<lambda>x y. (if ?P2 then upgrade_objects E x else Inr x) = Inr y) col col'))"
  proof (cases ?P2)
    case True
    with s2 have "upgrade_column (upgrade_objects E) (name f) ut1 = Inr ut2" by simp
    from upgrade_column_result[OF this] obtain col col' where
      "ut1 (name f) = Some col" "map_result (upgrade_objects E) col = Inr col'"
      "ut2 = ut1(name f \<mapsto> col')" by blast
    then show ?thesis using True map_result_all2[of "upgrade_objects E" col col'] by auto
  next
    case False
    with s2 have "ut2 = ut1" by simp
    then show ?thesis using False by (auto simp: list_all2_same)
  qed
  show ?thesis
  proof (intro conjI allI impI)
    fix m assume "m \<noteq> name f" then show "ut2 m = ut m" using A B by simp
  next
    fix col assume c: "ut (name f) = Some col"
    from A c obtain col1 where c1: "ut1 (name f) = Some col1"
      and r1: "list_all2 (\<lambda>x y. (if ?P1 then upgrade_image E x else Inr x) = Inr y) col col1"
      by blast
    from B c1 obtain col2 where c2: "ut2 (name f) = Some col2"
      and r2: "list_all2 (\<lambda>x y. (if ?P2 then upgrade_objects E x else Inr x) = Inr y) col1 col2"
      by blast
    have "list_all2 (\<lambda>x z. then_do (if ?P1 then upgrade_image E x else Inr x)
                           (\<lambda>y. if ?P2 then upgrade_objects E y else Inr y) = Inr z) col col2"
      using r1 r2 by (rule list_all2_then_do)
    then have "list_all2 (\<lambda>x y. upgrade_cell E upd f x = Inr y) col col2"
      by (simp add: upgrade_cell_def)
    then show "\<exists>col'. ut2 (name f) = Some col'
               \<and> list_all2 (\<lambda>x y. upgrade_cell E upd f x = Inr y) col col'"
      using c2 by blast
  qed
qed

lemma migrate_fields_result:
  assumes "migrate_fields E upd fs ut = Inr ut'" and "distinct (map name fs)"
  shows "(\<forall>f \<in> set fs. \<forall>col. ut (name f) = Some col \<longrightarrow>
            (\<exists>col'. ut' (name f) = Some col'
               \<and> list_all2 (\<lambda>x y. upgrade_cell E upd f x = Inr y) col col'))
       \<and> (\<forall>n. n \<notin> set (map name fs) \<longrightarrow> ut' n = ut n)"
  using assms
proof (induction fs arbitrary: ut)
  case Nil
  then show ?case by simp
next
  case (Cons f fs)
  have d: "distinct (map name fs)" and nf: "name f \<notin> set (map name fs)"
    using Cons.prems(2) by auto
  from Cons.prems(1) obtain ut1 ut2 where
    s1: "(if is_image_type E (ftype f) \<and> name f \<in> set upd
               then upgrade_column (upgrade_image E) (name f) ut else Inr ut) = Inr ut1"
    and s2: "(if is_list_of_object_annotation_type E (ftype f) \<and> name f \<in> set upd
               then upgrade_column (upgrade_objects E) (name f) ut1 else Inr ut1) = Inr ut2"
    and r: "migrate_fields E upd fs ut2 = Inr ut'"
    by (auto simp: then_do_def split: sum.splits)
  note one = migrate_one_field[OF s1 s2]
  note ih = Cons.IH[OF r d]
  show ?case
  proof (intro conjI ballI allI impI)
    fix g col assume g: "g \<in> set (f # fs)" and c: "ut (name g) = Some col"
    show "\<exists>col'. ut' (name g) = Some col'
               \<and> list_all2 (\<lambda>x y. upgrade_cell E upd g x = Inr y) col col'"
    proof (cases "g = f")
      case True
      from one c True obtain col' where "ut2 (name f) = Some col'"
        "list_all2 (\<lambda>x y. upgrade_cell E upd f x = Inr y) col col'" by blast
      moreover have "ut' (name f) = ut2 (name f)" using ih nf by simp
      ultimately show ?thesis using True by simp
    next
      case False
      then have gin: "g \<in> set fs" using g by simp
      then have "name g \<in> set (map name fs)" by simp
      then have "name g \<noteq> name f" using nf by metis
      then have "ut2 (name g) = Some col" using one c by simp
      then show ?thesis using ih gin by blast
    qed
  next
    fix n assume "n \<notin> set (map name (f # fs))"
    then show "ut' n = ut n" using ih one by simp
  qed
qed

lemma upgrade_cell_Py: "upgrade_cell E upd f (Py v) = Inr y \<Longrightarrow> y = Py v"
  by (auto simp: upgrade_cell_def upgrade_image_def upgrade_objects_def then_do_def
      split: if_splits)

lemma filter_rows_map:
  "filter_rows (map P ids) c = map snd (filter (\<lambda>p. P (fst p)) (zip ids c))"
  by (simp add: filter_rows_def zip_map1 filter_map comp_def case_prod_beta)

lemma single_match:
  assumes "distinct ids" and "i < length ids" and "length c = length ids"
  shows "filter (\<lambda>p. fst p = ids ! i) (zip ids c) = [(ids ! i, c ! i)]"
proof (rule singleton_list)
  show "distinct (filter (\<lambda>p. fst p = ids ! i) (zip ids c))"
    using assms(1) by (simp add: distinct_zipI1)
  show "set (filter (\<lambda>p. fst p = ids ! i) (zip ids c)) = {(ids ! i, c ! i)}"
  proof (intro set_eqI iffI)
    fix p assume "p \<in> set (filter (\<lambda>p. fst p = ids ! i) (zip ids c))"
    then have pz: "p \<in> set (zip ids c)" and fp: "fst p = ids ! i" by auto
    from pz obtain k where "ids ! k = fst p" "c ! k = snd p" "k < length ids"
      by (auto simp: in_set_zip)
    then have k: "k < length ids" "p = (ids ! k, c ! k)" "ids ! k = ids ! i"
      using fp by (simp_all add: prod_eq_iff)
    then have "k = i" using assms(1,2) by (simp add: nth_eq_iff_index_eq)
    then show "p \<in> {(ids ! i, c ! i)}" using k by simp
  next
    fix p assume "p \<in> {(ids ! i, c ! i)}"
    then show "p \<in> set (filter (\<lambda>p. fst p = ids ! i) (zip ids c))"
      using assms(2,3) by (auto simp: in_set_zip)
  qed
qed

lemma map_fst_insort_key:
  "map f (insort_key (\<lambda>x. g (f x)) x xs) = insort_key g (f x) (map f xs)"
  by (induction xs) auto

lemma map_fst_sort_key: "map f (sort_key (\<lambda>x. g (f x)) xs) = sort_key g (map f xs)"
  by (induction xs) (auto simp: map_fst_insort_key)

lemma mset_move_to_end:
  assumes "distinct xs" and "x \<in> set xs"
  shows "mset (filter (\<lambda>y. y \<noteq> x) xs @ [x]) = mset xs"
  using assms
proof (induction xs)
  case Nil
  then show ?case by simp
next
  case (Cons a xs)
  show ?case
  proof (cases "a = x")
    case True
    then have "x \<notin> set xs" using Cons.prems(1) by simp
    then have "filter (\<lambda>y. y \<noteq> x) xs = xs" by (induction xs) auto
    then show ?thesis using True by simp
  next
    case False
    then have "x \<in> set xs" using Cons.prems(2) by simp
    then have "mset (filter (\<lambda>y. y \<noteq> x) xs @ [x]) = mset xs" using Cons by simp
    then show ?thesis using False by simp
  qed
qed

lemma first_found:
  assumes "distinct ids" and "length c = length ids" and "it < length ids" and "ids ! it = target"
  shows "filter_rows (map (\<lambda>x. x = target) ids) c = [c ! it]"
  using single_match[OF assms(1,3,2)] assms(4) by (simp add: filter_rows_map)

lemma moved_length:
  assumes "distinct ids" and "length c = length ids" and "it < length ids" and "ids ! it = target"
  shows "length (filter_rows (map (\<lambda>x. x \<noteq> target) ids) c) + 1 = length ids"
proof -
  let ?zs = "zip ids c"
  have "length (filter (\<lambda>p. fst p = target) ?zs) = 1"
    using single_match[OF assms(1,3,2)] assms(4) by simp
  moreover have "length (filter (\<lambda>p. fst p = target) ?zs)
      + length (filter (\<lambda>p. \<not> fst p = target) ?zs) = length ?zs"
    by (rule sum_length_filter_compl)
  ultimately show ?thesis using assms(2) by (simp add: filter_rows_map)
qed

lemma moved_pairs_zip:
  assumes "length c = length ids"
  shows "zip (filter_rows (map (\<lambda>x. x \<noteq> target) ids) ids @ [target])
             (filter_rows (map (\<lambda>x. x \<noteq> target) ids) c @ [v])
         = filter (\<lambda>p. fst p \<noteq> target) (zip ids c) @ [(target, v)]"
proof -
  let ?B = "filter (\<lambda>p. fst p \<noteq> target) (zip ids c)"
  have a: "filter_rows (map (\<lambda>x. x \<noteq> target) ids) c = map snd ?B"
    by (simp add: filter_rows_map)
  have "filter_rows (map (\<lambda>x. x \<noteq> target) ids) ids = filter (\<lambda>x. x \<noteq> target) ids"
    by (simp add: filter_rows_map zip_same_conv_map filter_map comp_def)
  also have "\<dots> = filter (\<lambda>x. x \<noteq> target) (map fst (zip ids c))" using assms by simp
  also have "\<dots> = map fst ?B" by (simp add: filter_map comp_def)
  finally have b: "filter_rows (map (\<lambda>x. x \<noteq> target) ids) ids = map fst ?B" .
  show ?thesis unfolding a b by (simp add: zip_map_fst_snd)
qed

lemma moved_pairs:
  assumes "distinct ids" and "length c = length ids" and "i < length ids"
    and "it < length ids" and "ids ! it = target"
  shows "(ids ! i, if ids ! i = target then v else c ! i)
           \<in> set (zip (filter_rows (map (\<lambda>x. x \<noteq> target) ids) ids @ [target])
                      (filter_rows (map (\<lambda>x. x \<noteq> target) ids) c @ [v]))"
proof (cases "ids ! i = target")
  case True
  then show ?thesis unfolding moved_pairs_zip[OF assms(2)] by simp
next
  case False
  have "(ids ! i, c ! i) \<in> set (zip ids c)" using assms(2,3) by (auto simp: in_set_zip)
  then show ?thesis unfolding moved_pairs_zip[OF assms(2)] using False by simp
qed

lemma zip_functional:
  assumes "distinct xs" and "(x, y) \<in> set (zip xs ys)" and "(x, y') \<in> set (zip xs ys)"
  shows "y = y'"
proof -
  from assms(2) obtain i where i: "i < length xs" "xs ! i = x" "ys ! i = y"
    by (auto simp: in_set_zip)
  from assms(3) obtain j where j: "j < length xs" "xs ! j = x" "ys ! j = y'"
    by (auto simp: in_set_zip)
  have "i = j" using assms(1) i j by (metis nth_eq_iff_index_eq)
  then show ?thesis using i j by simp
qed

lemma sorted_pairs_mem:
  assumes "length keys = length c" and "j < length keys"
  shows "(sort_key natural_key keys ! j,
          map snd (sort_key (\<lambda>pair. natural_key (fst pair)) (zip keys c)) ! j)
           \<in> set (zip keys c)"
proof -
  let ?S = "sort_key (\<lambda>pair. natural_key (fst pair)) (zip keys c)"
  have len: "length ?S = length keys" using assms(1) by simp
  have "map fst ?S = sort_key natural_key (map fst (zip keys c))" by (rule map_fst_sort_key)
  then have f: "map fst ?S = sort_key natural_key keys" using assms(1) by simp
  have "j < length ?S" using assms(2) len by simp
  then have "?S ! j \<in> set ?S" by (rule nth_mem)
  then have m: "?S ! j \<in> set (zip keys c)" by simp
  have "sort_key natural_key keys ! j = fst (?S ! j)"
    using f assms(2) len by (metis nth_map)
  moreover have "map snd ?S ! j = snd (?S ! j)" using assms(2) len by simp
  ultimately show ?thesis using m by simp
qed

lemma same_name_same_column:
  fixes t :: table
  assumes "distinct (map (\<lambda>fc. name (fst fc)) t)" and "(f, c) \<in> set t" and "(g, d) \<in> set t"
    and "name f = name g"
  shows "c = d"
  using to_pydict_distinct[OF assms(1,2)] to_pydict_distinct[OF assms(1,3)] assms(4) by simp

lemma replace_row_result:
  fixes t :: table
  assumes len: "\<forall>c \<in> set (map snd t). length c = length ids"
    and dn: "distinct (map (\<lambda>fc. name (fst fc)) t)"
    and ds: "distinct (map name sch)"
    and ns: "set (map name sch) = set (map (\<lambda>fc. name (fst fc)) t)"
    and idc: "(fid, ids) \<in> set t" "name fid = ''id''"
    and idf: "fid \<in> set sch"
    and idw: "\<forall>ks out. build_array E fid (map (\<lambda>s. Py (PyStr s)) ks) = Inr out
                \<longrightarrow> out = map (\<lambda>s. Py (PyStr s)) ks"
    and di: "distinct ids"
    and it: "it < length ids" "ids ! it = Py (PyStr item_id)"
    and run: "replace_row E annotations t (sch, upd) (map (\<lambda>c. c = Py (PyStr item_id)) ids) = Inr t'"
  shows "map fst t' = sch
     \<and> (\<exists>keys. table_ids t' = map (\<lambda>s. Py (PyStr s)) keys \<and> sorted (map natural_key keys))
     \<and> mset (table_ids t') = mset ids
     \<and> (\<forall>c \<in> set (map snd t'). length c = length ids)
     \<and> (\<forall>fc' \<in> set t'. \<exists>fc \<in> set t. \<exists>col. name (fst fc) = name (fst fc')
          \<and> build_array E (fst fc') col = Inr (snd fc') \<and> length col = length ids
          \<and> (\<forall>i j. i < length ids \<and> j < length ids \<and> ids ! i = table_ids t' ! j \<longrightarrow>
             upgrade_cell E upd (fst fc')
               (if ids ! i = Py (PyStr item_id) \<and> name (fst fc) = ''objects''
                then Objects (map Instance annotations) else snd fc ! i) = Inr (col ! j)))"
proof -
  let ?target = "Py (PyStr item_id)"
  let ?new = "Objects (map Instance annotations)"
  let ?n = "length ids"
  let ?C = "\<lambda>s. Py (PyStr s)"
  let ?keep = "map (\<lambda>x. x \<noteq> ?target) ids"
  let ?found = "map (\<lambda>c. c = ?target) ids"
  have keep: "map Not ?found = ?keep" by (simp add: comp_def)
  define v where "v = (\<lambda>(f::field) (c::cell list). if name f = ''objects'' then ?new else c ! it)"
  define c1 where "c1 = (\<lambda>f c. filter_rows ?keep c @ [v f c])"
  define ut0 where "ut0 = to_pydict (table_filter ?keep t)"
  define item0 where "item0 = (first_row (table_filter ?found t))(''objects'' \<mapsto> ?new)"
  have run': "then_do (append_row sch item0 ut0) (\<lambda>ut1.
      then_do (sort_fields sch ut1) (\<lambda>ut2.
      then_do (sort_ids ut2) (\<lambda>ut3.
      then_do (migrate_fields E upd sch ut3) (\<lambda>ut4.
      then_do (build_arrays E sch ut4) (\<lambda>arrays.
      table_from_arrays sch arrays))))) = Inr t'"
    using run unfolding replace_row_def Let_def keep ut0_def item0_def fst_conv snd_conv .
  from run' obtain ut1 ut2 ut3 ut4 arrays where
    ar: "append_row sch item0 ut0 = Inr ut1"
    and sf: "sort_fields sch ut1 = Inr ut2"
    and si: "sort_ids ut2 = Inr ut3"
    and mf: "migrate_fields E upd sch ut3 = Inr ut4"
    and ba: "build_arrays E sch ut4 = Inr arrays"
    and ta: "table_from_arrays sch arrays = Inr t'"
    by (auto simp: then_do_def split: sum.splits)
  have col_len: "length c = ?n" if "(f, c) \<in> set t" for f c using len that by force
  have P1: "ut0 (name f) = Some (filter_rows ?keep c)" if "(f, c) \<in> set t" for f c
    unfolding ut0_def
    by (rule to_pydict_distinct) (simp add: table_filter_names dn, rule table_filter_mem[OF that])
  have P2: "item0 (name f) = Some (v f c)" if fc: "(f, c) \<in> set t" for f c
  proof -
    have "first_row (table_filter ?found t) (name f)
            = Some (case filter_rows ?found c of [] \<Rightarrow> Py PyNone | x # _ \<Rightarrow> x)"
      by (rule first_row_distinct) (simp add: table_filter_names dn, rule table_filter_mem[OF fc])
    also have "filter_rows ?found c = [c ! it]"
      by (rule first_found[OF di col_len[OF fc] it])
    finally show ?thesis by (simp add: item0_def v_def)
  qed
  have in_sch: "name f \<in> set (map name sch)" if "(f, c) \<in> set t" for f c
    using ns that by force
  have P3: "ut1 (name f) = Some (c1 f c)" if fc: "(f, c) \<in> set t" for f c
    using append_row_result[OF ar ds, of "name f"] P1[OF fc] P2[OF fc] in_sch[OF fc]
    by (simp add: c1_def)
  have c1_len: "length (c1 f c) = ?n" if fc: "(f, c) \<in> set t" for f c
    using moved_length[OF di col_len[OF fc] it] by (simp add: c1_def)
  define ids1 where "ids1 = c1 fid ids"
  have ids1: "ids1 = filter_rows ?keep ids @ [?target]"
    using idc(2) it(2) by (simp add: ids1_def c1_def v_def)
  have c1_id: "c1 f ids = ids1" if "name f = ''id''" for f
    using that idc(2) by (simp add: ids1_def c1_def v_def)
  have pairs: "(ids ! i, if ids ! i = ?target \<and> name f = ''objects'' then ?new else c ! i)
                 \<in> set (zip ids1 (c1 f c))" if fc: "(f, c) \<in> set t" and i: "i < ?n" for f c i
  proof -
    have e: "(if ids ! i = ?target then v f c else c ! i)
           = (if ids ! i = ?target \<and> name f = ''objects'' then ?new else c ! i)"
    proof (cases "ids ! i = ?target")
      case True
      then have "i = it" using di i it by (metis nth_eq_iff_index_eq)
      then show ?thesis using True by (simp add: v_def)
    next
      case False
      then show ?thesis by simp
    qed
    show ?thesis
      using moved_pairs[OF di col_len[OF fc] i it, of "v f c"]
      unfolding e ids1 c1_def .
  qed
  have "filter_rows ?keep ids = filter (\<lambda>x. x \<noteq> ?target) ids"
    by (simp add: filter_rows_map zip_same_conv_map filter_map comp_def)
  moreover have "?target \<in> set ids" using it by (metis nth_mem)
  ultimately have mset1: "mset ids1 = mset ids"
    using mset_move_to_end[OF di, of ?target] by (simp add: ids1)
  have d1: "distinct ids1" using mset1 di by (metis mset_eq_imp_distinct_iff)
  note sfr = sort_fields_result[OF sf ds]
  have ut1_id: "ut1 ''id'' = Some ids1" using P3[OF idc(1)] idc(2) by (simp add: ids1_def)
  have ut2_id: "ut2 ''id'' = Some ids1" using sfr ut1_id by simp
  from si ut2_id obtain keys where k: "map_result id_string ids1 = Inr keys"
    and ut3: "ut3 = ut2(''id'' \<mapsto> map ?C (sort_key natural_key keys))"
    by (auto simp: sort_ids_def then_do_def split: sum.splits)
  have ids1_keys: "ids1 = map ?C keys" using k by (rule map_result_id_string)
  have n1: "length ids1 = ?n" using mset1 by (metis size_mset)
  have lk: "length keys = ?n" using ids1_keys n1 by simp
  define ids' where "ids' = map ?C (sort_key natural_key keys)"
  have len': "length ids' = ?n" using lk by (simp add: ids'_def)
  have set': "set ids' = set ids1" by (simp add: ids'_def ids1_keys)
  have injC: "inj ?C" by (simp add: inj_def)
  have col3: "\<exists>col3. ut3 (name f') = Some col3 \<and> length col3 = ?n
                \<and> (\<forall>j < ?n. (ids' ! j, col3 ! j) \<in> set (zip ids1 (c1 f c)))"
    if fc: "(f, c) \<in> set t" and f': "f' \<in> set sch" and nm: "name f' = name f" for f c f'
  proof (cases "name f' = ''id''")
    case True
    have c: "c = ids" using same_name_same_column[OF dn fc idc(1)] True nm idc(2) by simp
    have "ut3 (name f') = Some ids'" using ut3 True by (simp add: ids'_def)
    moreover have "(ids' ! j, ids' ! j) \<in> set (zip ids1 (c1 f c))" if "j < ?n" for j
    proof -
      have "ids' ! j \<in> set ids1" using that len' set' by (metis nth_mem)
      then show ?thesis using c1_id[of f] True nm c by (simp add: zip_same)
    qed
    ultimately show ?thesis using len' by blast
  next
    case False
    from sfr f' False obtain idsx col cs where x: "ut1 ''id'' = Some idsx"
      "ut1 (name f') = Some col" "sort_column idsx col = Inr cs" "ut2 (name f') = Some cs"
      by blast
    have idsx: "idsx = ids1" using x(1) ut1_id by simp
    have col: "col = c1 f c" using x(2) P3[OF fc] nm by simp
    have sc: "sort_column ids1 (c1 f c) = Inr cs" using x(3) idsx col by simp
    have "length ids1 = length (c1 f c)" using n1 c1_len[OF fc] by simp
    from sort_column_result[OF sc this] obtain k2 where k2: "ids1 = map ?C k2"
      and cs: "cs = map snd (sort_key (\<lambda>pair. natural_key (fst pair)) (zip k2 (c1 f c)))"
      by blast
    have "map ?C k2 = map ?C keys" using k2 ids1_keys by simp
    then have k2k: "k2 = keys" using injC by (simp add: inj_map_eq_map)
    have u3: "ut3 (name f') = Some cs" using ut3 False x(4) by simp
    have lcs: "length cs = ?n" using cs k2k lk c1_len[OF fc] by simp
    have "(ids' ! j, cs ! j) \<in> set (zip ids1 (c1 f c))" if j: "j < ?n" for j
    proof -
      have lkc: "length keys = length (c1 f c)" using lk c1_len[OF fc] by simp
      have jk: "j < length keys" using j lk by simp
      from sorted_pairs_mem[OF lkc jk]
      have m: "(sort_key natural_key keys ! j, cs ! j) \<in> set (zip keys (c1 f c))"
        unfolding cs k2k .
      have "(?C (sort_key natural_key keys ! j), cs ! j)
              \<in> (\<lambda>p. (?C (fst p), snd p)) ` set (zip keys (c1 f c))"
        using m by force
      moreover have "zip ids1 (c1 f c) = map (\<lambda>p. (?C (fst p), snd p)) (zip keys (c1 f c))"
        unfolding ids1_keys by (simp add: zip_map1 case_prod_beta)
      moreover have "ids' ! j = ?C (sort_key natural_key keys ! j)"
        using jk by (simp add: ids'_def)
      ultimately show ?thesis by simp
    qed
    then show ?thesis using u3 lcs by blast
  qed
  note bar = build_arrays_result[OF ba]
  have la: "length arrays = length sch" using bar by (simp add: list_all2_lengthD)
  have t': "t' = zip sch arrays" and rect': "rectangular t'"
    using ta by (auto simp: table_from_arrays_def split: if_splits)
  have fst_t': "map fst t' = sch" using t' la by simp
  have mem_t': "f' \<in> set sch \<and> (\<exists>col. ut4 (name f') = Some col \<and> build_array E f' col = Inr c')"
    if "(f', c') \<in> set t'" for f' c'
    using bar t' that by (auto simp: in_set_zip list_all2_conv_all_nth)
  note mfr = migrate_fields_result[OF mf ds]
  have orig: "\<exists>f c. (f, c) \<in> set t \<and> name f = name f'" if "f' \<in> set sch" for f'
  proof -
    have "name f' \<in> set (map (\<lambda>fc. name (fst fc)) t)" using ns that by force
    then show ?thesis by force
  qed
  have col4: "length col = ?n \<and> (\<forall>j < ?n. \<exists>x. (ids' ! j, x) \<in> set (zip ids1 (c1 f c))
                                     \<and> upgrade_cell E upd f' x = Inr (col ! j))"
    if f': "f' \<in> set sch" and u4: "ut4 (name f') = Some col"
      and fc: "(f, c) \<in> set t" and nm: "name f = name f'" for f' col f c
  proof -
    from col3[OF fc f' nm[symmetric]] obtain col3 where u3: "ut3 (name f') = Some col3"
      and l3: "length col3 = ?n"
      and p3: "\<forall>j < ?n. (ids' ! j, col3 ! j) \<in> set (zip ids1 (c1 f c))" by blast
    from mfr f' u3 obtain col' where "ut4 (name f') = Some col'"
      "list_all2 (\<lambda>x y. upgrade_cell E upd f' x = Inr y) col3 col'" by blast
    then have la2: "list_all2 (\<lambda>x y. upgrade_cell E upd f' x = Inr y) col3 col" using u4 by simp
    have l4: "length col = ?n" using la2 l3 by (simp add: list_all2_lengthD[symmetric])
    have "upgrade_cell E upd f' (col3 ! j) = Inr (col ! j)" if "j < ?n" for j
      using la2 that l3 by (simp add: list_all2_conv_all_nth)
    then show ?thesis using l4 p3 by blast
  qed
  from idf obtain k where kk: "k < length sch" "sch ! k = fid" by (auto simp: in_set_conv_nth)
  have mid: "(fid, arrays ! k) \<in> set t'" using kk la t' by (auto simp: in_set_zip)
  from mem_t'[OF mid] obtain colid where u4id: "ut4 ''id'' = Some colid"
    and bid: "build_array E fid colid = Inr (arrays ! k)" using idc(2) by auto
  have u3id: "ut3 ''id'' = Some ids'" using ut3 by (simp add: ids'_def)
  from mfr idf u3id idc(2) obtain col' where "ut4 ''id'' = Some col'"
    and "list_all2 (\<lambda>x y. upgrade_cell E upd fid x = Inr y) ids' col'" by force
  then have "list_all2 (\<lambda>x y. upgrade_cell E upd fid x = Inr y) ids' colid"
    using u4id by simp
  then have "list_all2 (\<lambda>x y. x = y) ids' colid"
    unfolding ids'_def list_all2_map1 by (rule list_all2_mono) (auto dest: upgrade_cell_Py)
  then have cid: "colid = ids'" by (simp add: list_all2_eq[symmetric])
  have "build_array E fid (map ?C (sort_key natural_key keys)) = Inr (arrays ! k)"
    using bid unfolding cid ids'_def .
  with idw have "arrays ! k = map ?C (sort_key natural_key keys)" by blast
  then have ak: "arrays ! k = ids'" by (simp add: ids'_def)
  have dn': "distinct (map (\<lambda>fc. name (fst fc)) t')"
    using ds fst_t' by (metis (no_types, lifting) map_map comp_def map_eq_conv)
  have tid': "table_ids t' = ids'"
    using table_column_distinct[OF dn' mid] idc(2) ak by (simp add: table_ids_def)
  have A: "\<exists>keys. table_ids t' = map ?C keys \<and> sorted (map natural_key keys)"
    unfolding tid' ids'_def by (intro exI[of _ "sort_key natural_key keys"]) simp
  have B: "mset (table_ids t') = mset ids"
    unfolding tid' using mset1 by (simp add: ids'_def ids1_keys)
  have Cc: "\<forall>c \<in> set (map snd t'). length c = ?n"
  proof
    fix c' assume c': "c' \<in> set (map snd t')"
    have all: "\<forall>c \<in> set (map snd t'). length c = length (snd (hd t'))"
      using rect' by (simp only: rectangular_def)
    have "ids' \<in> set (map snd t')" using mid ak by force
    then have "length (snd (hd t')) = ?n" using all len' by metis
    moreover have "length c' = length (snd (hd t'))" using all c' by blast
    ultimately show "length c' = ?n" by simp
  qed
  have D: "\<forall>fc' \<in> set t'. \<exists>fc \<in> set t. \<exists>col. name (fst fc) = name (fst fc')
          \<and> build_array E (fst fc') col = Inr (snd fc') \<and> length col = ?n
          \<and> (\<forall>i j. i < ?n \<and> j < ?n \<and> ids ! i = table_ids t' ! j \<longrightarrow>
             upgrade_cell E upd (fst fc')
               (if ids ! i = ?target \<and> name (fst fc) = ''objects''
                then ?new else snd fc ! i) = Inr (col ! j))"
  proof
    fix fc' assume "fc' \<in> set t'"
    then have m: "(fst fc', snd fc') \<in> set t'" by simp
    from mem_t'[OF m] obtain col where f': "fst fc' \<in> set sch"
      and u4: "ut4 (name (fst fc')) = Some col"
      and b: "build_array E (fst fc') col = Inr (snd fc')" by blast
    from orig[OF f'] obtain f c where fc: "(f, c) \<in> set t"
      and nm: "name f = name (fst fc')" by blast
    note c4 = col4[OF f' u4 fc nm]
    have lc: "length col = ?n" using c4 by (rule conjunct1)
    have inner: "upgrade_cell E upd (fst fc')
               (if ids ! i = ?target \<and> name f = ''objects'' then ?new else c ! i)
            = Inr (col ! j)"
      if "i < ?n \<and> j < ?n \<and> ids ! i = table_ids t' ! j" for i j
    proof -
      from that have i: "i < ?n" and j: "j < ?n" and e: "ids ! i = ids' ! j" by (auto simp: tid')
      from c4 j obtain x where x: "(ids' ! j, x) \<in> set (zip ids1 (c1 f c))"
        "upgrade_cell E upd (fst fc') x = Inr (col ! j)" by blast
      from pairs[OF fc i] e
      have "(ids' ! j, if ids ! i = ?target \<and> name f = ''objects'' then ?new else c ! i)
              \<in> set (zip ids1 (c1 f c))" by simp
      from zip_functional[OF d1 this x(1)] x(2) show ?thesis by simp
    qed
    have R: "name (fst (f, c)) = name (fst fc')
          \<and> build_array E (fst fc') col = Inr (snd fc') \<and> length col = ?n
          \<and> (\<forall>i j. i < ?n \<and> j < ?n \<and> ids ! i = table_ids t' ! j \<longrightarrow>
             upgrade_cell E upd (fst fc')
               (if ids ! i = ?target \<and> name (fst (f, c)) = ''objects''
                then ?new else snd (f, c) ! i) = Inr (col ! j))"
      unfolding fst_conv snd_conv using nm b lc inner by blast
    show "\<exists>fc \<in> set t. \<exists>col. name (fst fc) = name (fst fc')
          \<and> build_array E (fst fc') col = Inr (snd fc') \<and> length col = ?n
          \<and> (\<forall>i j. i < ?n \<and> j < ?n \<and> ids ! i = table_ids t' ! j \<longrightarrow>
             upgrade_cell E upd (fst fc')
               (if ids ! i = ?target \<and> name (fst fc) = ''objects''
                then ?new else snd fc ! i) = Inr (col ! j))"
    proof (rule bexI[of _ "(f, c)"])
      show "(f, c) \<in> set t" by (rule fc)
    qed (rule exI[of _ col], rule R)
  qed
  show ?thesis using fst_t' A B Cc D by blast
qed

lemma map_result_cell_value:
  "map_result cell_value (map (\<lambda>s. Py (PyStr s)) ks) = Inr (map PyStr ks)"
  by (induction ks) (simp_all add: cell_value_def then_do_def)

lemma update_shard_sorted:
  fixes t :: table
  assumes rect: "rectangular t"
    and dn: "distinct (map (\<lambda>fc. name (fst fc)) t)"
    and leg: "\<forall>fc \<in> set t. type_str (ftype (fst fc)) = legacy_objects_signature
                \<longrightarrow> name (fst fc) = ''objects''"
    and di: "distinct (table_ids t)"
    and idt: "\<forall>fc \<in> set t. name (fst fc) = ''id'' \<longrightarrow> ftype (fst fc) = Primitive ''string''"
    and idw: "\<forall>ks out. build_array E \<lparr>name = ''id'', ftype = Primitive ''string''\<rparr>
                           (map (\<lambda>s. Py (PyStr s)) ks) = Inr out
                \<longrightarrow> out = map (\<lambda>s. Py (PyStr s)) ks"
    and run: "update_shard E item_id annotations t = Inr (Some t')"
  shows "(\<exists>keys. table_ids t' = map (\<lambda>s. Py (PyStr s)) keys \<and> sorted (map natural_key keys))
       \<and> mset (table_ids t') = mset (table_ids t)
       \<and> (\<forall>c \<in> set (map snd t'). length c = length (table_ids t))
       \<and> (\<exists>sch upd. legacy_fields E (map fst t) (map fst t, []) = Inr (sch, upd)
            \<and> map fst t' = sch
            \<and> (\<forall>fc' \<in> set t'. \<exists>fc \<in> set t. \<exists>col. name (fst fc) = name (fst fc')
                 \<and> build_array E (fst fc') col = Inr (snd fc')
                 \<and> length col = length (table_ids t)
                 \<and> (\<forall>i j. i < length (table_ids t) \<and> j < length (table_ids t)
                        \<and> table_ids t ! i = table_ids t' ! j \<longrightarrow>
                    upgrade_cell E upd (fst fc')
                      (if table_ids t ! i = Py (PyStr item_id) \<and> name (fst fc) = ''objects''
                       then Objects (map Instance annotations) else snd fc ! i)
                    = Inr (col ! j))))"
  using run
proof (cases rule: update_shard_cases)
  case (1 sch upd ids)
  note lf = 1(1) and tc = 1(2) and found = 1(3) and rr = 1(4)
  have tid: "table_ids t = ids" using tc by (simp add: table_ids_def)
  from table_column_Inr[OF tc] obtain fid where idc: "(fid, ids) \<in> set t" "name fid = ''id''"
    by blast
  have all: "\<forall>c \<in> set (map snd t). length c = length (snd (hd t))"
    using rect by (simp only: rectangular_def)
  have "ids \<in> set (map snd t)" using idc(1) by force
  then have "length ids = length (snd (hd t))" using all by blast
  then have len: "\<forall>c \<in> set (map snd t). length c = length ids"
    using all by simp
  have d0: "distinct (map name (fst (map fst t, [])))" using dn by (simp add: comp_def)
  have l0: "\<forall>f \<in> set (map fst t). type_str (ftype f) = legacy_objects_signature
              \<longrightarrow> name f = ''objects''"
  proof
    fix f assume "f \<in> set (map fst t)"
    then obtain c where "(f, c) \<in> set t" by auto
    then show "type_str (ftype f) = legacy_objects_signature \<longrightarrow> name f = ''objects''"
      using leg by force
  qed
  note n0 = legacy_fields_names[OF lf d0 l0, unfolded fst_conv]
  have nm: "distinct (map name sch)" "set (map name sch) = set (map (\<lambda>fc. name (fst fc)) t)"
  proof -
    show "distinct (map name sch)" using n0 by (rule conjunct1)
    have "set (map name sch) = set (map name (map fst t))" using n0 by (rule conjunct2)
    then show "set (map name sch) = set (map (\<lambda>fc. name (fst fc)) t)" by (simp add: comp_def)
  qed
  have ft: "ftype fid = Primitive ''string''" using idt idc by force
  have fid: "fid = \<lparr>name = ''id'', ftype = Primitive ''string''\<rparr>"
    using idc(2) ft by (cases fid) simp
  have i0: "\<forall>f \<in> set (map fst t). type_str (ftype f) = legacy_image_signature
              \<longrightarrow> name f \<noteq> name fid"
  proof (intro ballI impI notI)
    fix f assume f: "f \<in> set (map fst t)"
      and li: "type_str (ftype f) = legacy_image_signature" and e: "name f = name fid"
    from f obtain c where "(f, c) \<in> set t" by auto
    then have "ftype f = Primitive ''string''" using idt e idc(2) by force
    then show False using li by (simp add: legacy_image_signature_def)
  qed
  have g0: "fid \<in> set (fst (map fst t, []))" using idc(1) by force
  have no: "name fid \<noteq> ''objects''" using idc(2) by simp
  have idf: "fid \<in> set sch"
    using legacy_fields_keeps[OF lf g0 no i0] by simp
  have idw': "\<forall>ks out. build_array E fid (map (\<lambda>s. Py (PyStr s)) ks) = Inr out
                \<longrightarrow> out = map (\<lambda>s. Py (PyStr s)) ks"
    using idw unfolding fid .
  from found obtain it where it: "it < length ids" "ids ! it = Py (PyStr item_id)"
    by (auto simp: in_set_conv_nth)
  have di': "distinct ids" using di tid by simp
  note res = replace_row_result[OF len dn nm idc idf idw' di' it rr]
  have E: "legacy_fields E (map fst t) (map fst t, []) = Inr (sch, upd) \<and> map fst t' = sch
            \<and> (\<forall>fc' \<in> set t'. \<exists>fc \<in> set t. \<exists>col. name (fst fc) = name (fst fc')
                 \<and> build_array E (fst fc') col = Inr (snd fc') \<and> length col = length ids
                 \<and> (\<forall>i j. i < length ids \<and> j < length ids \<and> ids ! i = table_ids t' ! j \<longrightarrow>
                    upgrade_cell E upd (fst fc')
                      (if ids ! i = Py (PyStr item_id) \<and> name (fst fc) = ''objects''
                       then Objects (map Instance annotations) else snd fc ! i)
                    = Inr (col ! j)))"
    apply (intro conjI)
      apply (rule lf)
     apply (rule res[THEN conjunct1])
    apply (rule res[THEN conjunct2, THEN conjunct2, THEN conjunct2, THEN conjunct2])
    done
  show ?thesis unfolding tid
    apply (intro conjI)
       apply (rule res[THEN conjunct2, THEN conjunct1])
      apply (rule res[THEN conjunct2, THEN conjunct2, THEN conjunct1])
     apply (rule res[THEN conjunct2, THEN conjunct2, THEN conjunct2, THEN conjunct1])
    apply (rule exI[of _ sch], rule exI[of _ upd])
    apply (rule E)
    done
qed

text \<open>
  Claim C3 as stated holds of every successful run on a shard that contains the item.
  When two rows of the shard carry the target identifier, the run succeeds, both rows
  are filtered out and one row is appended: the shard had three rows before the update
  and has two after it.
\<close>

theorem rewritten_shard_rows_counterexample:
  "fst (save_item_annotations example_env ''img_7'' [0] store_twice) = None
   \<and> map (\<lambda>pt. (fst pt, table_ids (snd pt))) (files store_twice)
       = [(''db/shard_0.parquet'',
           [Py (PyStr ''img_7''), Py (PyStr ''img_7''), Py (PyStr ''img_10'')])]
   \<and> map (\<lambda>pt. (fst pt, table_ids (snd pt)))
         (files (snd (save_item_annotations example_env ''img_7'' [0] store_twice)))
       = [(''db/shard_0.parquet'', [Py (PyStr ''img_7''), Py (PyStr ''img_10'')])]"
  by code_simp

text \<open>
  Claim C3, amended: for every successful run of the update transaction over distinct
  shard files, and every shard file that holds the target item and whose table has
  distinct column names, distinct item identifiers, its legacy annotation column, if
  any, named \<open>objects\<close>, and an \<open>id\<close> column of type \<open>string\<close> whose array is read back as
  the strings it was built from: after the call the file holds a table whose identifier
  column is sorted by natural key and is a permutation of the identifier column before
  the update, so that the row count is unchanged, and every column has that length.
  Every column of the file is the array built (by the builders of the annotation lists
  and the images, or by \<open>convert_field\<close>) from a column that is permuted consistently
  with the identifiers: at the row that now carries an identifier, that column holds
  the cell that the row with this identifier held before (for the target item's
  \<open>objects\<close> column, the new annotation list), upgraded by the legacy migration where
  the column is a legacy one.
\<close>

theorem rewritten_shard_sorted:
  fixes t :: table
  assumes paths: "distinct (map fst (files st))"
    and ok: "fst (save_item_annotations E item_id annotations st) = None"
    and at_p: "map_of (files st) p = Some t"
    and holds: "holds_item item_id t"
    and dn: "distinct (map (\<lambda>fc. name (fst fc)) t)"
    and leg: "\<forall>fc \<in> set t. type_str (ftype (fst fc)) = legacy_objects_signature
                \<longrightarrow> name (fst fc) = ''objects''"
    and di: "distinct (table_ids t)"
    and idt: "\<forall>fc \<in> set t. name (fst fc) = ''id'' \<longrightarrow> ftype (fst fc) = Primitive ''string''"
    and idw: "\<forall>ks out. build_array E \<lparr>name = ''id'', ftype = Primitive ''string''\<rparr>
                           (map (\<lambda>s. Py (PyStr s)) ks) = Inr out
                \<longrightarrow> out = map (\<lambda>s. Py (PyStr s)) ks"
  shows "\<exists>t'. map_of (files (snd (save_item_annotations E item_id annotations st))) p = Some t'
       \<and> (\<exists>keys. table_ids t' = map (\<lambda>s. Py (PyStr s)) keys \<and> sorted (map natural_key keys))
       \<and> mset (table_ids t') = mset (table_ids t)
       \<and> (\<forall>c \<in> set (map snd t'). length c = length (table_ids t))
       \<and> (\<exists>sch upd. legacy_fields E (map fst t) (map fst t, []) = Inr (sch, upd)
            \<and> map fst t' = sch
            \<and> (\<forall>fc' \<in> set t'. \<exists>fc \<in> set t. \<exists>col. name (fst fc) = name (fst fc')
                 \<and> build_array E (fst fc') col = Inr (snd fc')
                 \<and> length col = length (table_ids t)
                 \<and> (\<forall>i j. i < length (table_ids t) \<and> j < length (table_ids t)
                        \<and> table_ids t ! i = table_ids t' ! j \<longrightarrow>
                    upgrade_cell E upd (fst fc')
                      (if table_ids t ! i = Py (PyStr item_id) \<and> name (fst fc) = ''objects''
                       then Objects (map Instance
                              (map (heap (snd (save_item_annotations E item_id annotations st)))
                                 annotations))
                       else snd fc ! i)
                    = Inr (col ! j))))"
proof -
  obtain err h where n: "normalize_annotations (mask_codec E) annotations (heap st) = (err, h)"
    by (cases "normalize_annotations (mask_codec E) annotations (heap st)")
  have err: "err = None" using ok n by (cases err) (auto simp: save_item_annotations_def)
  let ?ps = "sort_key (\<lambda>x. natural_key (path_name x)) (map fst (files st))"
  let ?st = "st\<lparr>heap := h\<rparr>"
  let ?a = "map h annotations"
  have eq: "save_item_annotations E item_id annotations st = update_files E item_id ?a ?ps ?st"
    using n err by (simp add: save_item_annotations_def)
  have hp: "heap (snd (save_item_annotations E item_id annotations st)) = h"
    unfolding eq by (simp add: update_files_heap)
  have dps: "distinct ?ps" using paths by simp
  have ok': "fst (update_files E item_id ?a ?ps ?st) = None" using ok unfolding eq .
  have "(p, t) \<in> set (files st)" using at_p by (rule map_of_SomeD)
  then have pin: "p \<in> set ?ps" by force
  have at_p': "map_of (files ?st) p = Some t" using at_p by simp
  from update_files_rewritten[OF dps ok' pin at_p' holds] obtain t' where
    run: "update_shard E item_id ?a t = Inr (Some t')"
    and fin: "map_of (files (snd (save_item_annotations E item_id annotations st))) p = Some t'"
    unfolding eq by blast
  have rect: "rectangular t"
  proof (rule ccontr)
    assume nr: "\<not> rectangular t"
    have bad: "then_do (read_table fs p) (update_shard E item_id ?a) = Inl ArrowInvalid"
      if "map_of fs p = Some t" for fs
      using that nr by (simp add: read_table_def then_do_def)
    have "fst (update_files E item_id ?a qs s) \<noteq> None"
      if "p \<in> set qs" "map_of (files s) p = Some t" "distinct qs" for qs s
      using that
    proof (induction qs arbitrary: s)
      case Nil
      then show ?case by simp
    next
      case (Cons q qs)
      show ?case
      proof (cases "q = p")
        case True
        then show ?thesis using bad[OF Cons.prems(2)] by (simp add: Let_def)
      next
        case False
        then have pq: "p \<in> set qs" and dq: "distinct qs" using Cons.prems by auto
        let ?s1 = "s\<lparr>events := events s @ [ReadTable q]\<rparr>"
        show ?thesis
        proof (cases rule: step_cases[of "files s" q E item_id ?a])
          case (err e)
          then show ?thesis by (simp add: Let_def)
        next
          case (absent u)
          have "fst (update_files E item_id ?a qs ?s1) \<noteq> None"
            using Cons.IH[OF pq _ dq, of ?s1] Cons.prems(2) by simp
          then show ?thesis using absent by (simp add: Let_def)
        next
          case (present u u')
          let ?s2 = "?s1\<lparr>files := write_table u' q (files ?s1),
                           events := events ?s1 @ [WriteTable q u']\<rparr>"
          have "map_of (files ?s2) p = Some t"
            using Cons.prems(2) False by (simp add: map_of_write_table)
          then have "fst (update_files E item_id ?a qs ?s2) \<noteq> None"
            using Cons.IH[OF pq _ dq, of ?s2] by blast
          then show ?thesis using present by (simp add: Let_def)
        qed
      qed
    qed
    from this[OF pin at_p' dps] ok' show False by simp
  qed
  note res = update_shard_sorted[OF rect dn leg di idt idw run]
  show ?thesis unfolding hp
    by (rule exI[of _ t']) (use fin[unfolded hp] res in blast)
qed

lemma example_id_column:
  "\<forall>ks out. build_array example_env \<lparr>name = ''id'', ftype = Primitive ''string''\<rparr>
                (map (\<lambda>s. Py (PyStr s)) ks) = Inr out
     \<longrightarrow> out = map (\<lambda>s. Py (PyStr s)) ks"
  by (auto simp: build_array_def example_env_def example_pyarrow_def example_image_type_def
      example_annotation_type_def map_result_cell_value then_do_def comp_def)

theorem rewritten_shard_sorted_witness:
  "\<exists>t' keys.
     map_of (files (snd (save_item_annotations example_env ''img_7'' [0] example_store)))
       ''db/shard_1.parquet'' = Some t'
     \<and> table_ids t' = map (\<lambda>s. Py (PyStr s)) keys \<and> sorted (map natural_key keys)
     \<and> mset (table_ids t') = mset (table_ids shard_1)"
proof -
  have p: "distinct (map fst (files example_store))" by (simp add: example_paths)
  have f: "map_of (files example_store) ''db/shard_1.parquet'' = Some shard_1"
    by (simp add: example_store_def)
  have h: "holds_item ''img_7'' shard_1" by code_simp
  have d: "distinct (map (\<lambda>fc. name (fst fc)) shard_1)" by code_simp
  have l: "\<forall>fc \<in> set shard_1. type_str (ftype (fst fc)) = legacy_objects_signature
                \<longrightarrow> name (fst fc) = ''objects''"
    by (simp add: shard_1_def objects_field_def id_field_def legacy_objects_signature_def)
  have i: "distinct (table_ids shard_1)" by code_simp
  have s: "\<forall>fc \<in> set shard_1. name (fst fc) = ''id'' \<longrightarrow> ftype (fst fc) = Primitive ''string''"
    by (simp add: shard_1_def objects_field_def id_field_def)
  from rewritten_shard_sorted[OF p example_ok f h d l i s example_id_column]
  obtain t' where
    "map_of (files (snd (save_item_annotations example_env ''img_7'' [0] example_store)))
       ''db/shard_1.parquet'' = Some t'"
    "\<exists>keys. table_ids t' = map (\<lambda>s. Py (PyStr s)) keys \<and> sorted (map natural_key keys)"
    "mset (table_ids t') = mset (table_ids shard_1)"
    by blast
  then show ?thesis by blast
qed

text \<open>
  The array builders do not give every cell back as it was. In the run on the shard with
  a column of string lists, the row of \<open>img_10\<close> holds no list before the update and the
  empty list after it: \<open>convert_field\<close> builds the list array from the offsets alone. This
  is why the amended claim equates a written column with the array built from the
  permuted column and not with the permuted column itself.
\<close>

lemma null_list_rewritten_empty:
  "fst (save_item_annotations example_env ''img_7'' [0] store_tags) = None
   \<and> table_column shard_tags ''tags'' = Inr [Py (PyList [PyStr ''a'']), Py PyNone]
   \<and> map (\<lambda>pt. table_column (snd pt) ''tags'')
         (files (snd (save_item_annotations example_env ''img_7'' [0] store_tags)))
       = [Inr [Py (PyList [PyStr ''a'']), Py (PyList [])]]"
  by code_simp

section \<open>Properties of the field converter\<close>

lemma infer_array_struct:
  assumes "infer_array data = Inr (NativeStruct names rows)"
  shows "rows = data"
    and "n \<in> set names \<longleftrightarrow> (\<exists>kvs. PyDict kvs \<in> set data \<and> n \<in> fst ` set kvs)"
proof -
  let ?vals = "filter (\<lambda>v. v \<noteq> PyNone) data"
  from assms have r: "rows = data" and nm: "names = remdups (concat (map dict_keys ?vals))"
    by (auto simp: infer_array_def Let_def split: if_splits)
  show "rows = data" by (rule r)
  have "n \<in> set names \<longleftrightarrow> (\<exists>v \<in> set ?vals. n \<in> set (dict_keys v))" unfolding nm by auto
  also have "\<dots> \<longleftrightarrow> (\<exists>kvs. PyDict kvs \<in> set data \<and> n \<in> fst ` set kvs)"
  proof
    assume "\<exists>v \<in> set ?vals. n \<in> set (dict_keys v)"
    then obtain v where v: "v \<in> set data" "n \<in> set (dict_keys v)" by auto
    then obtain kvs where "v = PyDict kvs" by (cases v) (auto simp: dict_keys_def)
    then show "\<exists>kvs. PyDict kvs \<in> set data \<and> n \<in> fst ` set kvs"
      using v by (auto simp: dict_keys_def)
  next
    assume "\<exists>kvs. PyDict kvs \<in> set data \<and> n \<in> fst ` set kvs"
    then obtain kvs where "PyDict kvs \<in> set data" "n \<in> fst ` set kvs" by blast
    then show "\<exists>v \<in> set ?vals. n \<in> set (dict_keys v)"
      by (intro bexI[of _ "PyDict kvs"]) (auto simp: dict_keys_def)
  qed
  finally show "n \<in> set names \<longleftrightarrow> (\<exists>kvs. PyDict kvs \<in> set data \<and> n \<in> fst ` set kvs)" .
qed

lemma infer_array_null:
  "infer_array data = Inr (NativeNull k) \<longleftrightarrow> (\<forall>row \<in> set data. row = PyNone) \<and> k = length data"
  by (auto simp: infer_array_def Let_def filter_empty_conv split: if_splits)

lemma convert_subfields_ok:
  assumes "convert_subfields P n fs names rows = Inr arrays"
  shows "set (map fst fs) \<subseteq> set names
       \<and> (\<exists>children. arrays = zip (map fst fs) children
            \<and> list_all2 (\<lambda>fT child. convert_field P (n @ ''.'' @ fst fT) (snd fT)
                                       (to_numpy P (map (row_value P (fst fT) rows) rows))
                                     = Inr child)
                 fs children)"
  using assms
proof (induction fs arbitrary: arrays)
  case Nil
  then show ?case by simp
next
  case (Cons fT fs)
  obtain f T where fT: "fT = (f, T)" by (cases fT)
  from Cons.prems obtain sub conv rest where
    s: "struct_field P names rows f = Inr sub"
    and c: "convert_field P (n @ ''.'' @ f) T (to_numpy P sub) = Inr conv"
    and r: "convert_subfields P n fs names rows = Inr rest"
    and a: "arrays = (f, conv) # rest"
    unfolding fT by (auto simp: then_do_def split: sum.splits)
  from s have mem: "f \<in> set names" and sub: "sub = map (row_value P f rows) rows"
    by (auto simp: struct_field_def split: if_splits)
  from Cons.IH[OF r] obtain children where
    ih: "set (map fst fs) \<subseteq> set names" "rest = zip (map fst fs) children"
      "list_all2 (\<lambda>fT child. convert_field P (n @ ''.'' @ fst fT) (snd fT)
                                       (to_numpy P (map (row_value P (fst fT) rows) rows))
                                     = Inr child)
                 fs children"
    by blast
  show ?case
    using mem ih a c sub unfolding fT
    by (intro conjI exI[of _ "conv # children"]) auto
qed

lemma convert_subfields_missing:
  assumes "f \<in> set (map fst fs)" and "f \<notin> set names"
  shows "isl (convert_subfields P n fs names rows)"
  using assms
proof (induction fs)
  case Nil
  then show ?case by simp
next
  case (Cons fT fs)
  obtain g T where fT: "fT = (g, T)" by (cases fT)
  show ?case
  proof (cases "g = f")
    case True
    then show ?thesis using Cons.prems(2) unfolding fT
      by (simp add: struct_field_def then_do_def)
  next
    case False
    then have "isl (convert_subfields P n fs names rows)" using Cons fT by auto
    then show ?thesis unfolding fT
      by (auto simp: then_do_def split: sum.splits)
  qed
qed

lemma struct_rows_dicts: "list_all is_dict (struct_rows cols)"
  by (cases cols) (auto simp: struct_rows_def struct_row_def is_dict_def list_all_iff)

text \<open>
  Claim C7, amended: for every input and every struct target type, when every input
  value is \<open>None\<close> the result is the null array of the struct type. Otherwise, when
  \<open>convert_field\<close> returns an array, every declared field is a key of some input
  dictionary, and the array is the struct array of the declared fields in order, the
  child of each field being the recursive conversion of that field's column alone. In
  that column a row holds the value under the field's key, null where the row's
  dictionary lacks the key, and, where the row is \<open>None\<close>, the empty value of the
  inferred type of the field (\<open>0\<close>, \<open>''\<close>, ...), which is not null; the struct array has
  no null row, so every row of it, also one that was \<open>None\<close>, is read back as a
  dictionary. When some value is not \<open>None\<close> and a declared field is a key of no input
  dictionary, \<open>convert_field\<close> raises an exception.
\<close>

theorem convert_field_struct:
  "((\<forall>row \<in> set data. row = PyNone) \<longrightarrow>
       convert_field P n (StructType fs) data = Inr (NullArray (length data) (StructType fs)))
   \<and> (convert_field P n (StructType fs) data = Inr arr \<and> (\<exists>row \<in> set data. row \<noteq> PyNone) \<longrightarrow>
        (\<forall>fT \<in> set fs. \<exists>kvs. PyDict kvs \<in> set data \<and> fst fT \<in> fst ` set kvs)
      \<and> (\<exists>children. arr = StructArray (zip (map fst fs) children)
           \<and> list_all2 (\<lambda>fT child.
                  convert_field P (n @ ''.'' @ fst fT) (snd fT)
                    (to_numpy P (map (\<lambda>row. case row of
                         PyDict kvs \<Rightarrow> (case map_of kvs (fst fT) of Some v \<Rightarrow> v | None \<Rightarrow> PyNone)
                       | _ \<Rightarrow> empty_value P (key_values (fst fT) data)) data))
                  = Inr child)
                fs children)
      \<and> list_all is_dict (to_pylist arr))
   \<and> ((\<exists>row \<in> set data. row \<noteq> PyNone)
        \<and> (\<exists>fT \<in> set fs. \<forall>kvs. PyDict kvs \<in> set data \<longrightarrow> fst fT \<notin> fst ` set kvs)
        \<longrightarrow> isl (convert_field P n (StructType fs) data))"
proof (intro conjI impI)
  assume "\<forall>row \<in> set data. row = PyNone"
  then have "infer_array data = Inr (NativeNull (length data))" by (simp add: infer_array_null)
  then show "convert_field P n (StructType fs) data = Inr (NullArray (length data) (StructType fs))"
    by simp
next
  assume a: "convert_field P n (StructType fs) data = Inr arr \<and> (\<exists>row \<in> set data. row \<noteq> PyNone)"
  then have nn: "\<not> (\<forall>row \<in> set data. row = PyNone)" by blast
  from a obtain names rows arrays where i: "infer_array data = Inr (NativeStruct names rows)"
    and s: "convert_subfields P n fs names rows = Inr arrays"
    and sa: "struct_from_arrays arrays = Inr arr"
    using nn infer_array_null[of data]
    by (auto simp: then_do_def split: sum.splits native.splits)
  have arr: "arr = StructArray arrays"
    using sa by (auto simp: struct_from_arrays_def split: if_splits)
  note rows = infer_array_struct(1)[OF i]
  from convert_subfields_ok[OF s] obtain children where
    sub: "set (map fst fs) \<subseteq> set names" and z: "arrays = zip (map fst fs) children"
    and l: "list_all2 (\<lambda>fT child. convert_field P (n @ ''.'' @ fst fT) (snd fT)
                                       (to_numpy P (map (row_value P (fst fT) rows) rows))
                                     = Inr child)
                 fs children"
    by blast
  have rv: "map (row_value P k data) data
      = map (\<lambda>row. case row of
                      PyDict kvs \<Rightarrow> (case map_of kvs k of Some v \<Rightarrow> v | None \<Rightarrow> PyNone)
                    | _ \<Rightarrow> empty_value P (key_values k data)) data" for k
    by (simp add: row_value_def)
  show "\<forall>fT \<in> set fs. \<exists>kvs. PyDict kvs \<in> set data \<and> fst fT \<in> fst ` set kvs"
  proof
    fix fT assume "fT \<in> set fs"
    then have "fst fT \<in> set names" using sub by auto
    then show "\<exists>kvs. PyDict kvs \<in> set data \<and> fst fT \<in> fst ` set kvs"
      using infer_array_struct(2)[OF i] by simp
  qed
  show "\<exists>children. arr = StructArray (zip (map fst fs) children)
           \<and> list_all2 (\<lambda>fT child.
                  convert_field P (n @ ''.'' @ fst fT) (snd fT)
                    (to_numpy P (map (\<lambda>row. case row of
                         PyDict kvs \<Rightarrow> (case map_of kvs (fst fT) of Some v \<Rightarrow> v | None \<Rightarrow> PyNone)
                       | _ \<Rightarrow> empty_value P (key_values (fst fT) data)) data))
                  = Inr child)
                fs children"
    using arr z l unfolding rows rv by blast
  show "list_all is_dict (to_pylist arr)"
    unfolding arr by (simp add: struct_rows_dicts)
next
  assume a: "(\<exists>row \<in> set data. row \<noteq> PyNone)
        \<and> (\<exists>fT \<in> set fs. \<forall>kvs. PyDict kvs \<in> set data \<longrightarrow> fst fT \<notin> fst ` set kvs)"
  then obtain fT where fT: "fT \<in> set fs"
    "\<forall>kvs. PyDict kvs \<in> set data \<longrightarrow> fst fT \<notin> fst ` set kvs" by blast
  have nn: "\<not> (\<forall>row \<in> set data. row = PyNone)" using a by blast
  show "isl (convert_field P n (StructType fs) data)"
  proof (cases "infer_array data")
    case (Inl e)
    then show ?thesis by simp
  next
    case (Inr nat)
    show ?thesis
    proof (cases nat)
      case (NativeNull k)
      then show ?thesis using Inr nn infer_array_null[of data k] by simp
    next
      case (NativeStruct names rows)
      have "fst fT \<notin> set names"
        using infer_array_struct(2)[OF Inr[unfolded NativeStruct]] fT(2) by blast
      moreover have "fst fT \<in> set (map fst fs)" using fT(1) by simp
      ultimately have "isl (convert_subfields P n fs names rows)"
        by (rule convert_subfields_missing[rotated])
      then show ?thesis using Inr NativeStruct by (auto simp: then_do_def split: sum.splits)
    next
      case (NativeList rows)
      then show ?thesis using Inr by simp
    next
      case NativeOther
      then show ?thesis using Inr by simp
    qed
  qed
qed

text \<open>
  Claim C7 as stated maps a declared field that is not in the input to null. For the
  target \<open>struct<b: string>\<close> and the one input row \<open>{"a": 1}\<close> the inferred struct array
  has no field \<open>b\<close>, and \<open>native_arr.field("b")\<close> raises \<open>KeyError\<close>.
\<close>

theorem convert_field_missing_field_counterexample:
  "convert_field example_pyarrow ''objects'' (StructType [(''b'', Primitive ''string'')])
     [PyDict [(''a'', PyInt 1)]] = Inl KeyError"
  by code_simp

lemma example_struct_conversion:
  "convert_field example_pyarrow ''objects''
     (StructType [(''a'', Primitive ''int64''), (''b'', Primitive ''string'')])
     [PyDict [(''a'', PyInt 1)], PyDict [(''a'', PyInt 2), (''b'', PyStr ''x'')], PyNone]
   = Inr (StructArray
       [(''a'', PlainArray (Primitive ''int64'') [PyInt 1, PyInt 2, PyInt 0]),
        (''b'', PlainArray (Primitive ''string'') [PyNone, PyStr ''x'', PyStr ''''])])"
  by code_simp

lemma example_struct_rows:
  "to_pylist (StructArray
       [(''a'', PlainArray (Primitive ''int64'') [PyInt 1, PyInt 2, PyInt 0]),
        (''b'', PlainArray (Primitive ''string'') [PyNone, PyStr ''x'', PyStr ''''])])
   = [PyDict [(''a'', PyInt 1), (''b'', PyNone)],
      PyDict [(''a'', PyInt 2), (''b'', PyStr ''x'')],
      PyDict [(''a'', PyInt 0), (''b'', PyStr '''')]]"
  by code_simp

theorem convert_field_struct_witness:
  "\<exists>arr children.
     convert_field example_pyarrow ''objects''
       (StructType [(''a'', Primitive ''int64''), (''b'', Primitive ''string'')])
       [PyDict [(''a'', PyInt 1)], PyDict [(''a'', PyInt 2), (''b'', PyStr ''x'')], PyNone]
     = Inr arr
     \<and> arr = StructArray (zip [''a'', ''b''] children)
     \<and> list_all is_dict (to_pylist arr)
     \<and> to_pylist arr = [PyDict [(''a'', PyInt 1), (''b'', PyNone)],
                         PyDict [(''a'', PyInt 2), (''b'', PyStr ''x'')],
                         PyDict [(''a'', PyInt 0), (''b'', PyStr '''')]]"
proof -
  let ?data = "[PyDict [(''a'', PyInt 1)], PyDict [(''a'', PyInt 2), (''b'', PyStr ''x'')], PyNone]"
  let ?fs = "[(''a'', Primitive ''int64''), (''b'', Primitive ''string'')]"
  let ?arr = "StructArray
       [(''a'', PlainArray (Primitive ''int64'') [PyInt 1, PyInt 2, PyInt 0]),
        (''b'', PlainArray (Primitive ''string'') [PyNone, PyStr ''x'', PyStr ''''])]"
  have ne: "\<exists>row \<in> set ?data. row \<noteq> PyNone" by simp
  note w = convert_field_struct[of ?data example_pyarrow "''objects''" ?fs ?arr,
      THEN conjunct2, THEN conjunct1, rule_format, OF conjI, OF example_struct_conversion ne]
  from w obtain children where c: "?arr = StructArray (zip (map fst ?fs) children)" by blast
  have d: "list_all is_dict (to_pylist ?arr)"
    using w by (rule conjunct2[THEN conjunct2])
  show ?thesis
    apply (rule exI[of _ ?arr], rule exI[of _ children])
    apply (intro conjI)
       apply (rule example_struct_conversion)
      apply (use c in simp)
     apply (rule d)
    apply (rule example_struct_rows)
    done
qed

end
